theory Spec2Isabelle
  imports Main "HOL-Library.Sublist" "HOL-Library.AList" "HOL-Library.Char_ord"
    "HOL-Library.List_Lexorder"
begin

chapter \<open>Hyperion ORM: the runtime core\<close>

text \<open>
  A shallow embedding of the connection pool's reconnection loop
  (\<^verbatim>\<open>ConnectionPool.attemptReconnection\<close>), the transaction manager
  (\<^verbatim>\<open>TransactionManager\<close>), the identity map (\<^verbatim>\<open>IdentityMap\<close>), the change tracker
  (\<^verbatim>\<open>ChangeTracker\<close>) and the unit of work (\<^verbatim>\<open>UnitOfWork\<close>).

  Conventions. A method that mutates its object takes the object's state and returns the
  new state. A method that can throw returns the thrown value beside the state (a sum or an
  option). Everything asynchronous is run to completion in program order: an \<^verbatim>\<open>await\<close>
  is the point where the awaited call's result is taken. What the outside world decides
  (whether the server accepts a statement, whether a health check succeeds, whether a timer
  fires before a callback settles) is a parameter of the model. Wall-clock readings
  (\<^verbatim>\<open>Date.now()\<close>, durations, start times) are left out.
\<close>

section \<open>Thrown values and text\<close>

text \<open>
  A thrown value: an error object with its optional driver \<^verbatim>\<open>code\<close> and its message, or the
  value \<^verbatim>\<open>undefined\<close>. \<^verbatim>\<open>new Error(msg)\<close> has no code. \<open>Unmodelled\<close> is not a value
  the program throws: an operation returns it on an input the embedding does not cover, and
  says which.
\<close>

datatype js_error = Err "string option" string | ThrownUndefined | Unmodelled string

fun show_nat :: "nat \<Rightarrow> string" where
  "show_nat n = (if n < 10 then [char_of (48 + n)] else show_nat (n div 10) @ [char_of (48 + n mod 10)])"
declare show_nat.simps [simp del]

fun indexOf :: "'a list \<Rightarrow> 'a \<Rightarrow> nat option" where
  "indexOf [] x = None"
| "indexOf (y # ys) x = (if y = x then Some 0 else map_option Suc (indexOf ys x))"

text \<open>
  The property names that are array indices: the decimal numerals, without sign or leading
  zero, of the integers from 0 to \<open>2\<^sup>3\<^sup>2 - 2\<close>. An object lists its own properties with the
  array indices first, in ascending numeric order, and then the other names in the order in
  which they were added.
\<close>

definition is_digit :: "char \<Rightarrow> bool" where
  "is_digit c = ((48 :: nat) \<le> of_char c \<and> (of_char c :: nat) \<le> 57)"

fun digits_value :: "int \<Rightarrow> string \<Rightarrow> int" where
  "digits_value acc [] = acc"
| "digits_value acc (c # cs) = digits_value (10 * acc + (int (of_char c) - 48)) cs"

definition array_index :: "string \<Rightarrow> nat option" where
  "array_index s =
     (if s \<noteq> [] \<and> list_all is_digit s \<and> (s = ''0'' \<or> hd s \<noteq> CHR ''0'')
         \<and> digits_value 0 s < 4294967295
      then Some (nat (digits_value 0 s)) else None)"

definition property_order :: "(string \<times> 'a) list \<Rightarrow> (string \<times> 'a) list" where
  "property_order fs =
     sort_key (\<lambda>(k, v). digits_value 0 k) (filter (\<lambda>(k, v). array_index k \<noteq> None) fs)
     @ filter (\<lambda>(k, v). array_index k = None) fs"

section \<open>Connection pool: reconnection after a pool-level error\<close>

text \<open>
  \<^verbatim>\<open>ConnectionPool.attemptReconnection\<close>. The configuration is the
  \<^verbatim>\<open>reconnection\<close> object of the pool's configuration. \<open>probe k\<close> is what the health
  check's \<^verbatim>\<open>SELECT 1\<close> does in the call made with \<^verbatim>\<open>retryCount = k\<close>: \<open>None\<close> when it
  succeeds, the error message when it fails (\<^verbatim>\<open>healthCheck\<close> catches the error and reports
  \<^verbatim>\<open>healthy: false\<close>). The result is the list of reconnection notifications emitted and of
  delays waited (\<open>Wait\<close>), oldest first; the query-metrics notifications of the health check's
  own query are not part of it.
\<close>

record reconnection_config =
  enabled :: bool
  maxRetries :: int
  retryDelay :: int
  exponentialBackoff :: bool

datatype pool_event =
    ReconnectionFailed nat
  | ReconnectionAttempt nat int
  | Wait int
  | ReconnectionSuccess nat

definition healthCheck :: "(nat \<Rightarrow> string option) \<Rightarrow> nat \<Rightarrow> bool \<times> string option" where
  "healthCheck probe k = (case probe k of None \<Rightarrow> (True, None) | Some msg \<Rightarrow> (False, Some msg))"

function attemptReconnection :: "reconnection_config \<Rightarrow> (nat \<Rightarrow> string option) \<Rightarrow> nat \<Rightarrow> pool_event list" where
  "attemptReconnection cfg probe retryCount =
     (if int retryCount \<ge> maxRetries cfg then [ReconnectionFailed retryCount]
      else
        let delay = (if exponentialBackoff cfg then retryDelay cfg * 2 ^ retryCount else retryDelay cfg)
        in ReconnectionAttempt (retryCount + 1) delay # Wait delay #
           (if fst (healthCheck probe retryCount) then [ReconnectionSuccess (retryCount + 1)]
            else attemptReconnection cfg probe (retryCount + 1)))"
  by pat_completeness auto
termination
  by (relation "measure (\<lambda>(cfg, probe, k). nat (maxRetries cfg - int k))") auto

declare attemptReconnection.simps [simp del]

section \<open>Transaction manager\<close>

text \<open>
  The manager's mutable state is the map of active transactions (a JavaScript \<^verbatim>\<open>Map\<close>, kept
  as an association list in insertion order), the two counters, and a trace of what it did:
  statements sent on the connection, notifications emitted, and delays slept. A
  \<open>connection\<close> says, from the statements sent so far and the next statement, whether the
  server rejects it. A callback is called with the number of the attempt, the transaction
  context and the manager's state, and returns what it resolved or rejected with beside the
  state it left. \<open>timerFires attempt\<close> says whether the timeout's timer settles the race of
  that attempt before the callback does.
\<close>

datatype IsolationLevel = READ_UNCOMMITTED | READ_COMMITTED | REPEATABLE_READ | SERIALIZABLE

fun isolation_text :: "IsolationLevel \<Rightarrow> string" where
  "isolation_text READ_UNCOMMITTED = ''READ UNCOMMITTED''"
| "isolation_text READ_COMMITTED = ''READ COMMITTED''"
| "isolation_text REPEATABLE_READ = ''REPEATABLE READ''"
| "isolation_text SERIALIZABLE = ''SERIALIZABLE''"

record TransactionOptions =
  isolationLevel_opt :: "IsolationLevel option"
  timeout_opt :: "int option"
  retryOnDeadlock :: bool
  maxRetries_opt :: "int option"
  retryDelay_opt :: "int option"
  readOnly_opt :: bool
  deferrable :: bool

record TransactionContext =
  tx_id :: string
  level :: nat
  isolationLevel :: "IsolationLevel option"
  savepoints :: "string list"
  readOnly :: bool
  isActive :: bool

record 'a TransactionResult =
  result :: 'a
  retries :: nat
  savepoints_count :: nat

datatype tm_event =
    Query string
  | Sleep int
  | DeadlockRetry js_error nat int int
  | SavepointCreated string string
  | SavepointRollback string string
  | SavepointReleased string string
  | SavepointError string string js_error
  | TransactionStarted string nat nat
  | TransactionCommitted string nat
  | TransactionRolledBack string js_error nat
  | RollbackError string js_error

type_synonym connection = "string list \<Rightarrow> string \<Rightarrow> js_error option"

record TransactionManager =
  activeTransactions :: "(string \<times> TransactionContext) list"
  nextTransactionId :: nat
  nextSavepointId :: nat
  trace :: "tm_event list"

fun statements :: "tm_event list \<Rightarrow> string list" where
  "statements [] = []"
| "statements (Query sql # es) = sql # statements es"
| "statements (e # es) = statements es"

definition emit :: "tm_event \<Rightarrow> TransactionManager \<Rightarrow> TransactionManager" where
  "emit e m = m\<lparr>trace := trace m @ [e]\<rparr>"

definition query :: "connection \<Rightarrow> string \<Rightarrow> TransactionManager \<Rightarrow> js_error option \<times> TransactionManager" where
  "query conn sql m = (conn (statements (trace m)) sql, emit (Query sql) m)"

text \<open>The statement texts built from a savepoint name.\<close>

definition savepoint_sql :: "string \<Rightarrow> string" where
  "savepoint_sql savepointName = ''SAVEPOINT '' @ savepointName"

definition rollback_to_savepoint_sql :: "string \<Rightarrow> string" where
  "rollback_to_savepoint_sql savepointName = ''ROLLBACK TO SAVEPOINT '' @ savepointName"

definition release_savepoint_sql :: "string \<Rightarrow> string" where
  "release_savepoint_sql savepointName = ''RELEASE SAVEPOINT '' @ savepointName"

definition noActiveTransaction :: "string \<Rightarrow> js_error" where
  "noActiveTransaction transactionId = Err None (''No active transaction found: '' @ transactionId)"

definition savepointNotFound :: "string \<Rightarrow> js_error" where
  "savepointNotFound savepointName = Err None (''Savepoint not found: '' @ savepointName)"

definition set_transaction :: "string \<Rightarrow> TransactionContext \<Rightarrow> TransactionManager \<Rightarrow> TransactionManager" where
  "set_transaction transactionId transaction m =
     m\<lparr>activeTransactions := AList.update transactionId transaction (activeTransactions m)\<rparr>"

definition rollbackToSavepoint ::
  "connection \<Rightarrow> string \<Rightarrow> string \<Rightarrow> TransactionManager \<Rightarrow> js_error option \<times> TransactionManager" where
  "rollbackToSavepoint conn transactionId savepointName m =
     (case map_of (activeTransactions m) transactionId of
        None \<Rightarrow> (Some (noActiveTransaction transactionId), m)
      | Some transaction \<Rightarrow>
          if \<not> isActive transaction then (Some (noActiveTransaction transactionId), m)
          else
            (case indexOf (savepoints transaction) savepointName of
               None \<Rightarrow> (Some (savepointNotFound savepointName), m)
             | Some savepointIndex \<Rightarrow>
                 (case query conn (rollback_to_savepoint_sql savepointName) m of
                    (Some error, m1) \<Rightarrow>
                      (Some error, emit (SavepointError transactionId savepointName error) m1)
                  | (None, m1) \<Rightarrow>
                      (None,
                       emit (SavepointRollback transactionId savepointName)
                         (set_transaction transactionId
                            (transaction\<lparr>savepoints := take (savepointIndex + 1) (savepoints transaction)\<rparr>)
                            m1)))))"


definition show_int :: "int \<Rightarrow> string" where
  "show_int i = (if i < 0 then ''-'' @ show_nat (nat (- i)) else show_nat (nat i))"

definition createSavepoint ::
  "connection \<Rightarrow> string \<Rightarrow> string option \<Rightarrow> TransactionManager \<Rightarrow> (js_error + string) \<times> TransactionManager" where
  "createSavepoint conn transactionId name m =
     (case map_of (activeTransactions m) transactionId of
        None \<Rightarrow> (Inl (noActiveTransaction transactionId), m)
      | Some transaction \<Rightarrow>
          if \<not> isActive transaction then (Inl (noActiveTransaction transactionId), m)
          else
            let (savepointName, m0) =
                  (case name of
                     Some n \<Rightarrow>
                       if n \<noteq> [] then (n, m)
                       else (''sp_'' @ show_nat (nextSavepointId m), m\<lparr>nextSavepointId := nextSavepointId m + 1\<rparr>)
                   | None \<Rightarrow> (''sp_'' @ show_nat (nextSavepointId m), m\<lparr>nextSavepointId := nextSavepointId m + 1\<rparr>))
            in
              (case query conn (savepoint_sql savepointName) m0 of
                 (Some error, m1) \<Rightarrow>
                   (Inl error, emit (SavepointError transactionId savepointName error) m1)
               | (None, m1) \<Rightarrow>
                   (Inr savepointName,
                    emit (SavepointCreated transactionId savepointName)
                      (set_transaction transactionId
                         (transaction\<lparr>savepoints := savepoints transaction @ [savepointName]\<rparr>) m1))))"

definition releaseSavepoint ::
  "connection \<Rightarrow> string \<Rightarrow> string \<Rightarrow> TransactionManager \<Rightarrow> js_error option \<times> TransactionManager" where
  "releaseSavepoint conn transactionId savepointName m =
     (case map_of (activeTransactions m) transactionId of
        None \<Rightarrow> (Some (noActiveTransaction transactionId), m)
      | Some transaction \<Rightarrow>
          if \<not> isActive transaction then (Some (noActiveTransaction transactionId), m)
          else
            (case indexOf (savepoints transaction) savepointName of
               None \<Rightarrow> (Some (savepointNotFound savepointName), m)
             | Some savepointIndex \<Rightarrow>
                 (case query conn (release_savepoint_sql savepointName) m of
                    (Some error, m1) \<Rightarrow>
                      (Some error, emit (SavepointError transactionId savepointName error) m1)
                  | (None, m1) \<Rightarrow>
                      (None,
                       emit (SavepointReleased transactionId savepointName)
                         (set_transaction transactionId
                            (transaction\<lparr>savepoints :=
                               take savepointIndex (savepoints transaction) @
                               drop (savepointIndex + 1) (savepoints transaction)\<rparr>)
                            m1)))))"

definition getNestedLevel :: "TransactionManager \<Rightarrow> nat" where
  "getNestedLevel m = length (activeTransactions m)"

definition isDeadlock :: "js_error \<Rightarrow> bool" where
  "isDeadlock error =
     (case error of
        Err (Some c) _ \<Rightarrow> c \<in> set [''40P01'', ''40001'']
      | _ \<Rightarrow> False)"

fun run_statements :: "connection \<Rightarrow> string list \<Rightarrow> TransactionManager \<Rightarrow> js_error option \<times> TransactionManager" where
  "run_statements conn [] m = (None, m)"
| "run_statements conn (statement # rest) m =
     (case query conn statement m of
        (Some error, m1) \<Rightarrow> (Some error, m1)
      | (None, m1) \<Rightarrow> run_statements conn rest m1)"

definition beginTransaction ::
  "connection \<Rightarrow> TransactionContext \<Rightarrow> TransactionOptions \<Rightarrow> TransactionManager \<Rightarrow> js_error option \<times> TransactionManager" where
  "beginTransaction conn transaction options m =
     (if level transaction = 0 then
        run_statements conn
          ([''BEGIN''] @
           (case isolationLevel_opt options of
              Some l \<Rightarrow> [''SET TRANSACTION ISOLATION LEVEL '' @ isolation_text l]
            | None \<Rightarrow> []) @
           (if readOnly_opt options then [''SET TRANSACTION READ ONLY''] else []) @
           (if deferrable options \<and> readOnly_opt options then [''SET TRANSACTION DEFERRABLE''] else []))
          m
      else
        let savepointName = ''sp_level_'' @ show_nat (level transaction)
        in run_statements conn [savepoint_sql savepointName]
             (set_transaction (tx_id transaction)
                (transaction\<lparr>savepoints := savepoints transaction @ [savepointName]\<rparr>) m))"

definition last_savepoint :: "TransactionContext \<Rightarrow> string option" where
  "last_savepoint transaction =
     (if savepoints transaction = [] then None
      else if last (savepoints transaction) = [] then None
      else Some (last (savepoints transaction)))"

definition commitTransaction ::
  "connection \<Rightarrow> string \<Rightarrow> TransactionManager \<Rightarrow> js_error option \<times> TransactionManager" where
  "commitTransaction conn transactionId m =
     (case map_of (activeTransactions m) transactionId of
        None \<Rightarrow> (Some (noActiveTransaction transactionId), m)
      | Some transaction \<Rightarrow>
          if \<not> isActive transaction then (Some (noActiveTransaction transactionId), m)
          else
            let (failure, m1) =
                  (if level transaction = 0 then query conn ''COMMIT'' m
                   else
                     (case last_savepoint transaction of
                        Some savepointName \<Rightarrow> query conn (release_savepoint_sql savepointName) m
                      | None \<Rightarrow> (None, m)))
            in
              (case failure of
                 Some error \<Rightarrow> (Some error, m1)
               | None \<Rightarrow> (None, set_transaction transactionId (transaction\<lparr>isActive := False\<rparr>) m1)))"

definition rollbackTransaction :: "connection \<Rightarrow> string \<Rightarrow> TransactionManager \<Rightarrow> TransactionManager" where
  "rollbackTransaction conn transactionId m =
     (case map_of (activeTransactions m) transactionId of
        None \<Rightarrow> m
      | Some transaction \<Rightarrow>
          let (failure, m1) =
                (if level transaction = 0 then query conn ''ROLLBACK'' m
                 else
                   (case last_savepoint transaction of
                      Some savepointName \<Rightarrow> query conn (rollback_to_savepoint_sql savepointName) m
                    | None \<Rightarrow> (None, m)));
              m2 = (case failure of
                      Some error \<Rightarrow> emit (RollbackError transactionId error) m1
                    | None \<Rightarrow> m1)
          in set_transaction transactionId (transaction\<lparr>isActive := False\<rparr>) m2)"

definition timeoutError :: "int \<Rightarrow> js_error" where
  "timeoutError t = Err None (''Transaction timeout after '' @ show_int t @ ''ms'')"

type_synonym 'a callback =
  "nat \<Rightarrow> TransactionContext \<Rightarrow> TransactionManager \<Rightarrow> (js_error + 'a) \<times> TransactionManager"

definition delete_transaction :: "string \<Rightarrow> TransactionManager \<Rightarrow> TransactionManager" where
  "delete_transaction transactionId m =
     m\<lparr>activeTransactions := AList.delete transactionId (activeTransactions m)\<rparr>"

definition executeTransaction ::
  "connection \<Rightarrow> (nat \<Rightarrow> bool) \<Rightarrow> 'a callback \<Rightarrow> TransactionOptions \<Rightarrow> nat \<Rightarrow> TransactionManager
     \<Rightarrow> (js_error + 'a TransactionResult) \<times> TransactionManager" where
  "executeTransaction conn timerFires callback options attempt m =
     (let transactionId = ''tx_'' @ show_nat (nextTransactionId m);
          m0 = m\<lparr>nextTransactionId := nextTransactionId m + 1\<rparr>;
          transaction =
            \<lparr>tx_id = transactionId, level = getNestedLevel m0,
             isolationLevel = isolationLevel_opt options, savepoints = [],
             readOnly = readOnly_opt options, isActive = True\<rparr>;
          m1 = set_transaction transactionId transaction m0;
          (outcome, m9) =
            (case beginTransaction conn transaction options m1 of
               (Some error, m2) \<Rightarrow> (Inl error, m2)
             | (None, m2) \<Rightarrow>
                 let m3 = emit (TransactionStarted transactionId (level transaction) (attempt + 1)) m2;
                     current = (case map_of (activeTransactions m3) transactionId of
                                  Some t \<Rightarrow> t | None \<Rightarrow> transaction);
                     (returned, m4) = callback attempt current m3;
                     raced =
                       (case timeout_opt options of
                          None \<Rightarrow> returned
                        | Some t \<Rightarrow>
                            if t \<noteq> 0 \<and> timerFires attempt then Inl (timeoutError t) else returned)
                 in
                   (case raced of
                      Inl error \<Rightarrow> (Inl error, m4)
                    | Inr r \<Rightarrow>
                        (case commitTransaction conn transactionId m4 of
                           (Some error, m5) \<Rightarrow> (Inl error, m5)
                         | (None, m5) \<Rightarrow>
                             let n = (case map_of (activeTransactions m5) transactionId of
                                        Some t \<Rightarrow> length (savepoints t) | None \<Rightarrow> 0)
                             in (Inr \<lparr>result = r, retries = attempt, savepoints_count = n\<rparr>,
                                 emit (TransactionCommitted transactionId n) m5))))
      in
        (case outcome of
           Inr res \<Rightarrow> (Inr res, delete_transaction transactionId m9)
         | Inl error \<Rightarrow>
             (Inl error,
              delete_transaction transactionId
                (emit (TransactionRolledBack transactionId error (attempt + 1))
                   (rollbackTransaction conn transactionId m9)))))"

definition effective_retryDelay :: "TransactionOptions \<Rightarrow> int" where
  "effective_retryDelay options =
     (case retryDelay_opt options of Some d \<Rightarrow> if d \<noteq> 0 then d else 100 | None \<Rightarrow> 100)"

definition effective_maxRetries :: "TransactionOptions \<Rightarrow> int" where
  "effective_maxRetries options =
     (case maxRetries_opt options of Some n \<Rightarrow> n | None \<Rightarrow> if retryOnDeadlock options then 3 else 0)"

function withTransaction_loop ::
  "connection \<Rightarrow> (nat \<Rightarrow> bool) \<Rightarrow> 'a callback \<Rightarrow> TransactionOptions \<Rightarrow> nat \<Rightarrow> js_error option
     \<Rightarrow> TransactionManager \<Rightarrow> (js_error + 'a TransactionResult) \<times> TransactionManager" where
  "withTransaction_loop conn timerFires callback options retried lastError m =
     (if int retried \<le> effective_maxRetries options then
        (case executeTransaction conn timerFires callback options retried m of
           (Inr res, m1) \<Rightarrow> (Inr res, m1)
         | (Inl error, m1) \<Rightarrow>
             if isDeadlock error \<and> retryOnDeadlock options \<and> int retried < effective_maxRetries options
             then
               let retried' = retried + 1;
                   m2 = emit (DeadlockRetry error retried' (effective_maxRetries options)
                                (effective_retryDelay options)) m1;
                   delay = effective_retryDelay options * 2 ^ (retried' - 1);
                   m3 = emit (Sleep delay) m2
               in withTransaction_loop conn timerFires callback options retried' (Some error) m3
             else (Inl error, m1))
      else (Inl (case lastError of Some e \<Rightarrow> e | None \<Rightarrow> ThrownUndefined), m))"
  by pat_completeness auto
termination
  by (relation "measure (\<lambda>(conn, timerFires, callback, options, retried, lastError, m).
        nat (effective_maxRetries options + 1 - int retried))") auto

definition withTransaction ::
  "connection \<Rightarrow> (nat \<Rightarrow> bool) \<Rightarrow> 'a callback \<Rightarrow> TransactionOptions \<Rightarrow> TransactionManager
     \<Rightarrow> (js_error + 'a TransactionResult) \<times> TransactionManager" where
  "withTransaction conn timerFires callback options m =
     withTransaction_loop conn timerFires callback options 0 None m"

section \<open>Entity ids and keys\<close>

text \<open>
  An entity id is a scalar or an object of named parts (a composite key); ids are values that
  nobody mutates, so they are trees. Numbers are the integers that \<^verbatim>\<open>String\<close> and
  \<^verbatim>\<open>JSON.stringify\<close> print in full digits, those below \<open>10\<^sup>2\<^sup>1\<close> in absolute value that a
  double holds exactly; larger ones and fractions are not covered. \<open>typeof\<close>, \<open>js_String\<close>
  (\<^verbatim>\<open>String(id)\<close>) and \<open>JSON_stringify\<close> are the runtime's functions on these values:
  \<^verbatim>\<open>JSON.stringify\<close> leaves out the properties whose value is \<^verbatim>\<open>undefined\<close>, gives
  \<^verbatim>\<open>undefined\<close> for \<^verbatim>\<open>undefined\<close> itself (which a template literal prints as the
  word), and escapes the quote and the backslash inside a string (control characters, which
  it escapes too, are taken as they are). An object is a list of properties with distinct
  names, in the order \<^verbatim>\<open>Object.keys\<close> gives them.
\<close>

type_synonym ref = nat

datatype idval =
    IdUndefined | IdNull | IdBool bool | IdNum int | IdStr string
  | IdObj "(string \<times> idval) list"

fun typeof :: "idval \<Rightarrow> string" where
  "typeof IdUndefined = ''undefined''"
| "typeof IdNull = ''object''"
| "typeof (IdBool b) = ''boolean''"
| "typeof (IdNum n) = ''number''"
| "typeof (IdStr s) = ''string''"
| "typeof (IdObj fs) = ''object''"

fun js_String :: "idval \<Rightarrow> string" where
  "js_String IdUndefined = ''undefined''"
| "js_String IdNull = ''null''"
| "js_String (IdBool b) = (if b then ''true'' else ''false'')"
| "js_String (IdNum n) = show_int n"
| "js_String (IdStr s) = s"
| "js_String (IdObj fs) = ''[object Object]''"

definition join :: "string \<Rightarrow> string list \<Rightarrow> string" where
  "join sep xs = (case xs of [] \<Rightarrow> [] | y # ys \<Rightarrow> y @ concat (map (\<lambda>z. sep @ z) ys))"

definition quote :: "string \<Rightarrow> string" where
  "quote s = [CHR 0x22] @ concat (map (\<lambda>c. if c = CHR 0x22 \<or> c = CHR 0x5C then [CHR 0x5C, c] else [c]) s) @ [CHR 0x22]"

fun json_text :: "idval \<Rightarrow> string option" where
  "json_text IdUndefined = None"
| "json_text IdNull = Some ''null''"
| "json_text (IdBool b) = Some (if b then ''true'' else ''false'')"
| "json_text (IdNum n) = Some (show_int n)"
| "json_text (IdStr s) = Some (quote s)"
| "json_text (IdObj fs) =
     Some (''{'' @ join '','' (concat (map (\<lambda>(k, v). case json_text v of None \<Rightarrow> [] | Some t \<Rightarrow> [quote k @ '':'' @ t]) fs)) @ ''}'')"

definition JSON_stringify :: "idval \<Rightarrow> string" where
  "JSON_stringify v = (case json_text v of None \<Rightarrow> ''undefined'' | Some t \<Rightarrow> t)"

text \<open>
  \<^verbatim>\<open>sortObjectKeys\<close> adds the properties to a new object in the sorted order of their names
  (\<^verbatim>\<open>Array.prototype.sort\<close> without a comparator: by code units); the new object then lists
  them in its own order.
\<close>

fun sortObjectKeys :: "idval \<Rightarrow> idval" where
  "sortObjectKeys (IdObj fs) =
     IdObj (property_order (sort_key fst (map (\<lambda>(k, v). (k, sortObjectKeys v)) fs)))"
| "sortObjectKeys v = v"


section \<open>Identity map\<close>

text \<open>
  \<^verbatim>\<open>maps\<close> takes an entity kind to its \<^verbatim>\<open>WeakMap\<close> from key objects to instances;
  \<^verbatim>\<open>keyRegistry\<close> takes a composite key to the key object (through a \<^verbatim>\<open>WeakRef\<close>).
  Instances and key objects are references. A key object \<^verbatim>\<open>{entity, id}\<close> never leaves the
  map, so the map numbers its own (\<open>nextKeyObject\<close>). Garbage collection is not modelled:
  every \<^verbatim>\<open>WeakRef\<close> still holds its target and no \<^verbatim>\<open>WeakMap\<close> entry is dropped, which is
  what the program sees until the running job ends.
\<close>

record IdentityMap =
  maps :: "(string \<times> (ref \<times> ref) list) list"
  keyRegistry :: "(string \<times> ref) list"
  enableWeakRefs :: bool
  nextKeyObject :: nat

definition new_IdentityMap :: "bool option \<Rightarrow> IdentityMap" where
  "new_IdentityMap enableWeakRefs_option =
     \<lparr>maps = [], keyRegistry = [],
      enableWeakRefs = (case enableWeakRefs_option of None \<Rightarrow> True | Some b \<Rightarrow> b),
      nextKeyObject = 0\<rparr>"

definition invalidId :: "string \<Rightarrow> idval \<Rightarrow> js_error" where
  "invalidId entity ident = Err None (''Invalid ID for entity '' @ entity @ '': '' @ js_String ident)"

definition createCompositeKey :: "string \<Rightarrow> idval \<Rightarrow> js_error + string" where
  "createCompositeKey entity ident =
     (if ident = IdNull \<or> ident = IdUndefined then Inl (invalidId entity ident)
      else if typeof ident = ''object''
      then Inr (entity @ '':obj:'' @ JSON_stringify (sortObjectKeys ident))
      else Inr (entity @ '':'' @ typeof ident @ '':'' @ js_String ident))"

definition getKeyObject :: "IdentityMap \<Rightarrow> string \<Rightarrow> idval \<Rightarrow> js_error + ref option" where
  "getKeyObject im entity ident =
     (case createCompositeKey entity ident of
        Inl error \<Rightarrow> Inl error
      | Inr compositeKey \<Rightarrow> Inr (map_of (keyRegistry im) compositeKey))"

definition getOrCreateKeyObject ::
  "IdentityMap \<Rightarrow> string \<Rightarrow> idval \<Rightarrow> js_error + (ref \<times> IdentityMap)" where
  "getOrCreateKeyObject im entity ident =
     (case getKeyObject im entity ident of
        Inl error \<Rightarrow> Inl error
      | Inr (Some existing) \<Rightarrow> Inr (existing, im)
      | Inr None \<Rightarrow>
          let keyObj = nextKeyObject im;
              im1 = im\<lparr>nextKeyObject := nextKeyObject im + 1\<rparr>
          in (case createCompositeKey entity ident of
                Inl error \<Rightarrow> Inl error
              | Inr compositeKey \<Rightarrow>
                  if enableWeakRefs im1
                  then Inr (keyObj, im1\<lparr>keyRegistry := AList.update compositeKey keyObj (keyRegistry im1)\<rparr>)
                  else Inr (keyObj, im1)))"

definition identityMap_get :: "IdentityMap \<Rightarrow> string \<Rightarrow> idval \<Rightarrow> js_error + ref option" where
  "identityMap_get im entity ident =
     (case map_of (maps im) entity of
        None \<Rightarrow> Inr None
      | Some entries \<Rightarrow>
          (case getKeyObject im entity ident of
             Inl error \<Rightarrow> Inl error
           | Inr None \<Rightarrow> Inr None
           | Inr (Some keyObj) \<Rightarrow> Inr (map_of entries keyObj)))"

definition identityMap_set ::
  "IdentityMap \<Rightarrow> string \<Rightarrow> idval \<Rightarrow> ref \<Rightarrow> (js_error + ref) \<times> IdentityMap" where
  "identityMap_set im entity ident instance =
     (let (entries, im1) =
            (case map_of (maps im) entity of
               None \<Rightarrow> ([], im\<lparr>maps := AList.update entity [] (maps im)\<rparr>)
             | Some existingMap \<Rightarrow> (existingMap, im))
      in (case getOrCreateKeyObject im1 entity ident of
            Inl error \<Rightarrow> (Inl error, im1)
          | Inr (keyObj, im2) \<Rightarrow>
              (case map_of entries keyObj of
                 Some existing \<Rightarrow> (Inr existing, im2)
               | None \<Rightarrow>
                   (Inr instance,
                    im2\<lparr>maps := AList.update entity (AList.update keyObj instance entries) (maps im2)\<rparr>))))"

definition identityMap_delete ::
  "IdentityMap \<Rightarrow> string \<Rightarrow> idval \<Rightarrow> (js_error + bool) \<times> IdentityMap" where
  "identityMap_delete im entity ident =
     (case map_of (maps im) entity of
        None \<Rightarrow> (Inr False, im)
      | Some entries \<Rightarrow>
          (case getKeyObject im entity ident of
             Inl error \<Rightarrow> (Inl error, im)
           | Inr None \<Rightarrow> (Inr False, im)
           | Inr (Some keyObj) \<Rightarrow>
               (case createCompositeKey entity ident of
                  Inl error \<Rightarrow> (Inl error, im\<lparr>maps := AList.update entity (AList.delete keyObj entries) (maps im)\<rparr>)
                | Inr compositeKey \<Rightarrow>
                    (Inr (map_of entries keyObj \<noteq> None),
                     im\<lparr>maps := AList.update entity (AList.delete keyObj entries) (maps im),
                        keyRegistry := AList.delete compositeKey (keyRegistry im)\<rparr>))))"

definition identityMap_has :: "IdentityMap \<Rightarrow> string \<Rightarrow> idval \<Rightarrow> js_error + bool" where
  "identityMap_has im entity ident =
     (case map_of (maps im) entity of
        None \<Rightarrow> Inr False
      | Some entries \<Rightarrow>
          (case getKeyObject im entity ident of
             Inl error \<Rightarrow> Inl error
           | Inr None \<Rightarrow> Inr False
           | Inr (Some keyObj) \<Rightarrow> Inr (map_of entries keyObj \<noteq> None)))"

definition clearEntity :: "IdentityMap \<Rightarrow> string \<Rightarrow> IdentityMap" where
  "clearEntity im entity =
     im\<lparr>maps := AList.delete entity (maps im),
        keyRegistry := filter (\<lambda>(key, keyObj). \<not> prefix (entity @ '':'') key) (keyRegistry im)\<rparr>"

definition identityMap_clear :: "IdentityMap \<Rightarrow> IdentityMap" where
  "identityMap_clear im = im\<lparr>maps := [], keyRegistry := []\<rparr>"

definition identityMap_getStats :: "IdentityMap \<Rightarrow> nat \<times> nat" where
  "identityMap_getStats im = (length (maps im), length (keyRegistry im))"

section \<open>Objects and proxies\<close>

text \<open>
  The objects the tracker works on live in a store, addressed by reference: plain objects
  (their own properties, in insertion order), arrays, the \<^verbatim>\<open>Set\<close> of changed fields of a
  tracked entity, and the two kinds of \<^verbatim>\<open>Proxy\<close> the tracker creates, each with what its
  handler closes over. A property key is a string or a symbol. A value is a scalar, a
  reference, or a function: a method of \<^verbatim>\<open>Array.prototype\<close>, or the wrapper the nested
  proxy returns for a mutating array method (\<open>Mutator changedFields path obj value\<close>).

  A proxy is created after its target, so a target's reference is smaller than the proxy's;
  the operations that follow a proxy to its target check this and do not follow it
  otherwise, which is what makes them terminate. Inherited properties (the methods of \<^verbatim>\<open>Object.prototype\<close>) and
  properties of an array other than its elements, its length and its methods are left out.
\<close>

datatype pkey = PStr string | PSym nat

datatype fn = ArrayMethod string | Mutator ref string ref fn

datatype jsval = VUndefined | VNull | VBool bool | VNum int | VStr string | VRef ref | VFun fn

datatype hobj =
    HObject "(pkey \<times> jsval) list"
  | HArray "jsval list"
  | HSet "string list"
  | HRootProxy ref ref string idval
  | HNestedProxy ref ref string

record store =
  objects :: "ref \<Rightarrow> hobj option"
  next_ref :: ref

definition alloc :: "store \<Rightarrow> hobj \<Rightarrow> ref \<times> store" where
  "alloc st obj =
     (next_ref st, st\<lparr>objects := (objects st)(next_ref st \<mapsto> obj), next_ref := next_ref st + 1\<rparr>)"

definition put :: "store \<Rightarrow> ref \<Rightarrow> hobj \<Rightarrow> store" where
  "put st r obj = st\<lparr>objects := (objects st)(r \<mapsto> obj)\<rparr>"

definition mutatingMethods :: "string list" where
  "mutatingMethods = [''push'', ''pop'', ''shift'', ''unshift'', ''splice'', ''sort'', ''reverse'']"

definition array_methods :: "string list" where
  "array_methods = mutatingMethods @
     [''concat'', ''slice'', ''indexOf'', ''includes'', ''join'', ''map'', ''filter'', ''forEach'',
      ''find'', ''some'', ''every'', ''reduce'']"

definition own_get :: "hobj \<Rightarrow> pkey \<Rightarrow> jsval" where
  "own_get obj prop =
     (case obj of
        HObject fs \<Rightarrow> (case map_of fs prop of Some v \<Rightarrow> v | None \<Rightarrow> VUndefined)
      | HArray vs \<Rightarrow>
          (case prop of
             PSym y \<Rightarrow> VUndefined
           | PStr s \<Rightarrow>
               if s = ''length'' then VNum (int (length vs))
               else (case array_index s of
                       Some i \<Rightarrow> if i < length vs then vs ! i else VUndefined
                     | None \<Rightarrow> if s \<in> set array_methods then VFun (ArrayMethod s) else VUndefined))
      | _ \<Rightarrow> VUndefined)"

definition own_set :: "hobj \<Rightarrow> pkey \<Rightarrow> jsval \<Rightarrow> hobj" where
  "own_set obj prop v =
     (case obj of
        HObject fs \<Rightarrow> HObject (AList.update prop v fs)
      | HArray vs \<Rightarrow>
          (case prop of
             PSym y \<Rightarrow> HArray vs
           | PStr s \<Rightarrow>
               (case array_index s of
                  Some i \<Rightarrow>
                    if i < length vs then HArray (vs[i := v])
                    else HArray (vs @ replicate (i - length vs) VUndefined @ [v])
                | None \<Rightarrow>
                    (case v of
                       VNum n \<Rightarrow>
                         if s = ''length'' \<and> 0 \<le> n
                         then HArray (take (nat n) vs @ replicate (nat n - length vs) VUndefined)
                         else HArray vs
                     | _ \<Rightarrow> HArray vs)))
      | other \<Rightarrow> other)"

definition own_delete :: "hobj \<Rightarrow> pkey \<Rightarrow> hobj" where
  "own_delete obj prop =
     (case obj of
        HObject fs \<Rightarrow> HObject (AList.delete prop fs)
      | HArray vs \<Rightarrow>
          (case prop of
             PSym y \<Rightarrow> HArray vs
           | PStr s \<Rightarrow>
               (case array_index s of
                  Some i \<Rightarrow> if i < length vs then HArray (vs[i := VUndefined]) else HArray vs
                | None \<Rightarrow> HArray vs))
      | other \<Rightarrow> other)"

function isArray :: "store \<Rightarrow> ref \<Rightarrow> bool" where
  "isArray st r =
     (case objects st r of
        Some (HArray vs) \<Rightarrow> True
      | Some (HRootProxy target cf entity ident) \<Rightarrow> if target < r then isArray st target else False
      | Some (HNestedProxy target cf path) \<Rightarrow> if target < r then isArray st target else False
      | _ \<Rightarrow> False)"
  by pat_completeness auto
termination
  by (relation "measure (\<lambda>(st, r). r)") auto

definition set_add :: "store \<Rightarrow> ref \<Rightarrow> string \<Rightarrow> store" where
  "set_add st cf x =
     (case objects st cf of
        Some (HSet xs) \<Rightarrow> if x \<in> set xs then st else put st cf (HSet (xs @ [x]))
      | _ \<Rightarrow> st)"

definition is_object_value :: "jsval \<Rightarrow> bool" where
  "is_object_value v = (case v of VRef r \<Rightarrow> True | _ \<Rightarrow> False)"

function reflect_get :: "ref list \<Rightarrow> store \<Rightarrow> ref \<Rightarrow> pkey \<Rightarrow> jsval \<times> store" where
  "reflect_get entityProxies st r prop =
     (case objects st r of
        None \<Rightarrow> (VUndefined, st)
      | Some (HRootProxy obj changedFields entity ident) \<Rightarrow>
          if obj < r then
            (let (v, st1) = reflect_get entityProxies st obj prop
             in (case prop of
                   PSym y \<Rightarrow> (v, st1)
                 | PStr name \<Rightarrow>
                     (case v of
                        VRef target \<Rightarrow>
                          if target \<notin> set entityProxies
                          then (let (p, st2) = alloc st1 (HNestedProxy target changedFields name)
                                in (VRef p, st2))
                          else (v, st1)
                      | _ \<Rightarrow> (v, st1))))
          else (VUndefined, st)
      | Some (HNestedProxy obj changedFields path) \<Rightarrow>
          if obj < r then
            (let (v, st1) = reflect_get entityProxies st obj prop
             in (case (v, prop) of
                   (VFun f, PStr name) \<Rightarrow>
                     if isArray st1 obj \<and> name \<in> set mutatingMethods
                     then (VFun (Mutator changedFields path obj f), st1)
                     else (v, st1)
                 | (VRef target, PStr name) \<Rightarrow>
                     (let (p, st2) = alloc st1 (HNestedProxy target changedFields (path @ ''.'' @ name))
                      in (VRef p, st2))
                 | _ \<Rightarrow> (v, st1)))
          else (VUndefined, st)
      | Some plain \<Rightarrow> (own_get plain prop, st))"
  by pat_completeness auto
termination
  by (relation "measure (\<lambda>(eps, st, r, prop). r)") auto


text \<open>
  \<^verbatim>\<open>!==\<close> on values: a wrapper is a new function each time it is returned, so it is never
  equal to anything.
\<close>

fun strict_equal :: "jsval \<Rightarrow> jsval \<Rightarrow> bool" where
  "strict_equal (VFun (Mutator cf path obj f)) w = False"
| "strict_equal v (VFun (Mutator cf path obj f)) = False"
| "strict_equal v w = (v = w)"

function reflect_set :: "ref list \<Rightarrow> store \<Rightarrow> ref \<Rightarrow> pkey \<Rightarrow> jsval \<Rightarrow> store" where
  "reflect_set entityProxies st r prop v =
     (case objects st r of
        None \<Rightarrow> st
      | Some (HRootProxy obj changedFields entity ident) \<Rightarrow>
          (case prop of
             PSym y \<Rightarrow> if obj < r then reflect_set entityProxies st obj prop v else st
           | PStr propStr \<Rightarrow>
               (let (oldValue, st1) = reflect_get entityProxies st obj prop;
                    st2 = (if \<not> strict_equal oldValue v then set_add st1 changedFields propStr else st1)
                in if obj < r then reflect_set entityProxies st2 obj prop v else st2))
      | Some (HNestedProxy obj changedFields path) \<Rightarrow>
          (case prop of
             PSym y \<Rightarrow> if obj < r then reflect_set entityProxies st obj prop v else st
           | PStr name \<Rightarrow>
               (let st1 = set_add st changedFields path
                in if obj < r then reflect_set entityProxies st1 obj prop v else st1))
      | Some plain \<Rightarrow> put st r (own_set plain prop v))"
  by pat_completeness auto
termination
  by (relation "measure (\<lambda>(eps, st, r, prop, v). r)") auto

function reflect_deleteProperty :: "store \<Rightarrow> ref \<Rightarrow> pkey \<Rightarrow> store" where
  "reflect_deleteProperty st r prop =
     (case objects st r of
        None \<Rightarrow> st
      | Some (HRootProxy obj changedFields entity ident) \<Rightarrow>
          (case prop of
             PSym y \<Rightarrow> if obj < r then reflect_deleteProperty st obj prop else st
           | PStr name \<Rightarrow>
               (let st1 = set_add st changedFields name
                in if obj < r then reflect_deleteProperty st1 obj prop else st1))
      | Some (HNestedProxy obj changedFields path) \<Rightarrow>
          (case prop of
             PSym y \<Rightarrow> if obj < r then reflect_deleteProperty st obj prop else st
           | PStr name \<Rightarrow>
               (let st1 = set_add st changedFields path
                in if obj < r then reflect_deleteProperty st1 obj prop else st1))
      | Some plain \<Rightarrow> put st r (own_delete plain prop))"
  by pat_completeness auto
termination
  by (relation "measure (\<lambda>(st, r, prop). r)") auto

text \<open>
  The methods of \<^verbatim>\<open>Array.prototype\<close> that change the array in place. \<^verbatim>\<open>sort\<close> is the sort
  without a comparator, of an array whose elements are scalars: by the text of the elements,
  in code-unit order, stable, \<^verbatim>\<open>undefined\<close> last. \<^verbatim>\<open>splice\<close> reads its first two arguments
  as integers: a number is itself, \<^verbatim>\<open>true\<close> is 1, \<^verbatim>\<open>undefined\<close>, \<^verbatim>\<open>null\<close> and \<^verbatim>\<open>false\<close> are
  0, and so is, here, a string or an object; it returns a new array of the elements removed.
  A sort with a comparator, or of an array that holds objects or functions, leaves the array
  as it is, and so does every other method (\<^verbatim>\<open>concat\<close>, \<^verbatim>\<open>slice\<close>, \<^verbatim>\<open>map\<close> and the rest, which
  do not change the array in the runtime either; their result is not covered and is given
  as \<^verbatim>\<open>undefined\<close>).
\<close>

definition to_integer :: "jsval \<Rightarrow> int" where
  "to_integer v = (case v of VNum n \<Rightarrow> n | VBool b \<Rightarrow> (if b then 1 else 0) | _ \<Rightarrow> 0)"

definition splice :: "jsval list \<Rightarrow> jsval list \<Rightarrow> jsval list \<times> jsval list" where
  "splice vs args =
     (case args of
        [] \<Rightarrow> (vs, [])
      | start # rest \<Rightarrow>
          let len = int (length vs);
              relativeStart = to_integer start;
              actualStart = nat (if relativeStart < 0 then max (len + relativeStart) 0
                                 else min relativeStart len);
              actualDeleteCount =
                (case rest of
                   [] \<Rightarrow> length vs - actualStart
                 | deleteCount # items \<Rightarrow>
                     nat (min (max (to_integer deleteCount) 0) (len - int actualStart)))
          in (take actualStart vs @ tl rest @ drop (actualStart + actualDeleteCount) vs,
              take actualDeleteCount (drop actualStart vs)))"

definition sort_text :: "jsval \<Rightarrow> string option" where
  "sort_text v =
     (case v of
        VNull \<Rightarrow> Some ''null''
      | VBool b \<Rightarrow> Some (if b then ''true'' else ''false'')
      | VNum n \<Rightarrow> Some (show_int n)
      | VStr s \<Rightarrow> Some s
      | _ \<Rightarrow> None)"

definition js_sort :: "jsval list \<Rightarrow> jsval list" where
  "js_sort vs =
     (if list_all (\<lambda>v. v = VUndefined \<or> sort_text v \<noteq> None) vs
      then sort_key (\<lambda>v. case sort_text v of Some t \<Rightarrow> t | None \<Rightarrow> [])
             (filter (\<lambda>v. v \<noteq> VUndefined) vs)
           @ filter (\<lambda>v. v = VUndefined) vs
      else vs)"

definition array_method :: "string \<Rightarrow> ref \<Rightarrow> jsval list \<Rightarrow> jsval list \<Rightarrow> jsval list \<times> jsval" where
  "array_method name this vs args =
     (if name = ''push'' then (vs @ args, VNum (int (length (vs @ args))))
      else if name = ''pop'' then (butlast vs, if vs = [] then VUndefined else last vs)
      else if name = ''shift'' then (tl vs, if vs = [] then VUndefined else hd vs)
      else if name = ''unshift'' then (args @ vs, VNum (int (length (args @ vs))))
      else if name = ''reverse'' then (rev vs, VRef this)
      else if name = ''sort''
      then (if args = [] \<or> args = [VUndefined] then js_sort vs else vs, VRef this)
      else (vs, VUndefined))"

fun call_fn :: "store \<Rightarrow> fn \<Rightarrow> ref \<Rightarrow> jsval list \<Rightarrow> jsval \<times> store" where
  "call_fn st (ArrayMethod name) this args =
     (case objects st this of
        Some (HArray vs) \<Rightarrow>
          if name = ''splice'' then
            (let (vs', removed) = splice vs args;
                 (r, st1) = alloc (put st this (HArray vs')) (HArray removed)
             in (VRef r, st1))
          else
            (let (vs', returned) = array_method name this vs args
             in (returned, put st this (HArray vs')))
      | _ \<Rightarrow> (VUndefined, st))"
| "call_fn st (Mutator changedFields path obj f) this args =
     call_fn (set_add st changedFields path) f obj args"

section \<open>Change tracker\<close>

text \<open>
  \<^verbatim>\<open>deepClone(data)\<close> copies everything reachable from \<^verbatim>\<open>data\<close>; the copy is kept only to be
  handed out as \<^verbatim>\<open>originalData\<close>. It is represented by the store as it is at the time of the
  call, together with the reference: the same object graph, frozen.
\<close>

type_synonym snapshot = "(ref \<Rightarrow> hobj option) \<times> ref"

definition deepClone :: "store \<Rightarrow> ref \<Rightarrow> snapshot" where
  "deepClone st data = (objects st, data)"

record TrackedEntity =
  te_entity :: string
  te_id :: idval
  te_data :: ref
  te_proxy :: ref
  te_originalData :: snapshot
  te_isNew :: bool
  te_isDeleted :: bool
  te_changedFields :: ref

datatype ChangeType = Created | Updated | Deleted

record EntityChange =
  change_entity :: string
  change_id :: idval
  change_type :: ChangeType
  change_originalData :: "snapshot option"
  change_currentData :: "ref option"
  change_changedFields :: "string list option"

record ChangeTracker =
  trackedEntities :: "(string \<times> TrackedEntity) list"
  entityProxies :: "ref list"

definition new_ChangeTracker :: ChangeTracker where
  "new_ChangeTracker = \<lparr>trackedEntities = [], entityProxies = []\<rparr>"

definition createKey :: "string \<Rightarrow> idval \<Rightarrow> string" where
  "createKey entity ident = entity @ '':'' @ JSON_stringify ident"

definition createProxy :: "store \<Rightarrow> ref \<Rightarrow> ref \<Rightarrow> string \<Rightarrow> idval \<Rightarrow> ref \<times> store" where
  "createProxy st target changedFields entity ident =
     alloc st (HRootProxy target changedFields entity ident)"

definition track ::
  "store \<Rightarrow> ChangeTracker \<Rightarrow> string \<Rightarrow> idval \<Rightarrow> ref \<Rightarrow> bool \<Rightarrow> ref \<times> store \<times> ChangeTracker" where
  "track st tracker entity ident data isNew =
     (let key = createKey entity ident
      in (case map_of (trackedEntities tracker) key of
            Some existing \<Rightarrow> (te_proxy existing, st, tracker)
          | None \<Rightarrow>
              let originalData = deepClone st data;
                  (changedFields, st1) = alloc st (HSet []);
                  (proxy, st2) = createProxy st1 data changedFields entity ident;
                  tracked = \<lparr>te_entity = entity, te_id = ident, te_data = data, te_proxy = proxy,
                             te_originalData = originalData, te_isNew = isNew, te_isDeleted = False,
                             te_changedFields = changedFields\<rparr>
              in (proxy, st2,
                  tracker\<lparr>trackedEntities := AList.update key tracked (trackedEntities tracker),
                          entityProxies := entityProxies tracker @ [proxy]\<rparr>)))"

definition notTracked :: "string \<Rightarrow> idval \<Rightarrow> js_error" where
  "notTracked entity ident =
     Err None (''Entity '' @ entity @ '' with id '' @ js_String ident @ '' is not being tracked'')"

definition markDeleted :: "ChangeTracker \<Rightarrow> string \<Rightarrow> idval \<Rightarrow> js_error + ChangeTracker" where
  "markDeleted tracker entity ident =
     (let key = createKey entity ident
      in (case map_of (trackedEntities tracker) key of
            None \<Rightarrow> Inl (notTracked entity ident)
          | Some tracked \<Rightarrow>
              Inr (tracker\<lparr>trackedEntities :=
                     AList.update key (tracked\<lparr>te_isDeleted := True\<rparr>) (trackedEntities tracker)\<rparr>)))"

definition set_values :: "store \<Rightarrow> ref \<Rightarrow> string list" where
  "set_values st s = (case objects st s of Some (HSet xs) \<Rightarrow> xs | _ \<Rightarrow> [])"

definition change_of :: "store \<Rightarrow> TrackedEntity \<Rightarrow> EntityChange list" where
  "change_of st tracked =
     (if te_isDeleted tracked then
        [\<lparr>change_entity = te_entity tracked, change_id = te_id tracked, change_type = Deleted,
          change_originalData = Some (te_originalData tracked), change_currentData = None,
          change_changedFields = None\<rparr>]
      else if te_isNew tracked then
        [\<lparr>change_entity = te_entity tracked, change_id = te_id tracked, change_type = Created,
          change_originalData = None, change_currentData = Some (te_data tracked),
          change_changedFields = None\<rparr>]
      else if length (set_values st (te_changedFields tracked)) > 0 then
        [\<lparr>change_entity = te_entity tracked, change_id = te_id tracked, change_type = Updated,
          change_originalData = Some (te_originalData tracked), change_currentData = Some (te_data tracked),
          change_changedFields = Some (set_values st (te_changedFields tracked))\<rparr>]
      else [])"

definition getChanges :: "store \<Rightarrow> ChangeTracker \<Rightarrow> EntityChange list" where
  "getChanges st tracker = concat (map (\<lambda>(key, tracked). change_of st tracked) (trackedEntities tracker))"

definition tracker_hasChanges :: "store \<Rightarrow> ChangeTracker \<Rightarrow> string \<Rightarrow> idval \<Rightarrow> bool" where
  "tracker_hasChanges st tracker entity ident =
     (case map_of (trackedEntities tracker) (createKey entity ident) of
        None \<Rightarrow> False
      | Some tracked \<Rightarrow>
          te_isNew tracked \<or> te_isDeleted tracked \<or> length (set_values st (te_changedFields tracked)) > 0)"

definition getChangedFields :: "store \<Rightarrow> ChangeTracker \<Rightarrow> string \<Rightarrow> idval \<Rightarrow> string list" where
  "getChangedFields st tracker entity ident =
     (case map_of (trackedEntities tracker) (createKey entity ident) of
        None \<Rightarrow> []
      | Some tracked \<Rightarrow> set_values st (te_changedFields tracked))"

definition set_clear :: "store \<Rightarrow> ref \<Rightarrow> store" where
  "set_clear st s = (case objects st s of Some (HSet xs) \<Rightarrow> put st s (HSet []) | _ \<Rightarrow> st)"

definition resetChanges :: "store \<Rightarrow> ChangeTracker \<Rightarrow> string \<Rightarrow> idval \<Rightarrow> store \<times> ChangeTracker" where
  "resetChanges st tracker entity ident =
     (let key = createKey entity ident
      in (case map_of (trackedEntities tracker) key of
            None \<Rightarrow> (st, tracker)
          | Some tracked \<Rightarrow>
              let st1 = set_clear st (te_changedFields tracked);
                  tracked1 = tracked\<lparr>te_originalData := deepClone st (te_data tracked), te_isNew := False\<rparr>
              in if te_isDeleted tracked1
                 then (st1, tracker\<lparr>trackedEntities := AList.delete key (trackedEntities tracker)\<rparr>)
                 else (st1, tracker\<lparr>trackedEntities := AList.update key tracked1 (trackedEntities tracker)\<rparr>)))"

definition untrack :: "ChangeTracker \<Rightarrow> string \<Rightarrow> idval \<Rightarrow> ChangeTracker" where
  "untrack tracker entity ident =
     (let key = createKey entity ident
      in (case map_of (trackedEntities tracker) key of
            None \<Rightarrow> tracker
          | Some tracked \<Rightarrow>
              tracker\<lparr>entityProxies := removeAll (te_proxy tracked) (entityProxies tracker),
                      trackedEntities := AList.delete key (trackedEntities tracker)\<rparr>))"

definition tracker_clear :: "ChangeTracker \<Rightarrow> ChangeTracker" where
  "tracker_clear tracker = tracker\<lparr>trackedEntities := []\<rparr>"

definition tracker_getStats :: "store \<Rightarrow> ChangeTracker \<Rightarrow> nat \<times> nat \<times> nat \<times> nat \<times> nat" where
  "tracker_getStats st tracker =
     (let ts = map snd (trackedEntities tracker);
          del = filter te_isDeleted ts;
          new = filter (\<lambda>t. \<not> te_isDeleted t \<and> te_isNew t) ts;
          upd = filter (\<lambda>t. \<not> te_isDeleted t \<and> \<not> te_isNew t \<and> length (set_values st (te_changedFields t)) > 0) ts;
          unc = filter (\<lambda>t. \<not> te_isDeleted t \<and> \<not> te_isNew t \<and> length (set_values st (te_changedFields t)) = 0) ts
      in (length ts, length new, length upd, length del, length unc))"

definition empty_store :: store where
  "empty_store = \<lparr>objects = Map.empty, next_ref = 0\<rparr>"

section \<open>Unit of work\<close>

text \<open>
  The entity operations take the store and the unit of work; \<^verbatim>\<open>commit\<close> also takes the
  statements sent on the connection so far and returns them with those it sent. A connection
  says, from the statements sent so far and the next one, whether the server rejects it. A
  statement is its text and its parameters, which are field values and ids.

  Reading a field for an id or for a statement parameter reads the object behind the
  instance (\<open>raw_get\<close>): when the instance is one of the tracker's proxies the program reads
  through its \<^verbatim>\<open>get\<close> trap, which gives the same scalars. An id is read from a scalar field;
  a key field that holds an object is not covered (\<open>Unmodelled\<close>).
\<close>

record EntityMetadata =
  md_entity :: string
  md_table :: string
  md_primaryKey :: "string + string list"
  md_columns :: "(string \<times> string) list"

record UnitOfWorkOptions =
  autoFlush :: bool
  flushThreshold :: nat
  enableChangeTracking :: bool

datatype param = PValue jsval | PId idval

datatype statement = Statement string "param list"

type_synonym uow_connection = "statement list \<Rightarrow> statement \<Rightarrow> js_error option"

record CommitResult =
  created :: nat
  updated :: nat
  deleted :: nat

record UnitOfWork =
  identityMap :: IdentityMap
  changeTracker :: ChangeTracker
  uow_options :: UnitOfWorkOptions
  entityMetadata :: "(string \<times> EntityMetadata) list"
  uow_connection :: "uow_connection option"
  uow_isActive :: bool

definition new_UnitOfWork :: "bool option \<Rightarrow> nat option \<Rightarrow> bool option \<Rightarrow> UnitOfWork" where
  "new_UnitOfWork autoFlush_option flushThreshold_option enableChangeTracking_option =
     \<lparr>identityMap = new_IdentityMap None,
      changeTracker = new_ChangeTracker,
      uow_options =
        \<lparr>autoFlush = (case autoFlush_option of None \<Rightarrow> False | Some b \<Rightarrow> b),
         flushThreshold = (case flushThreshold_option of None \<Rightarrow> 1000 | Some n \<Rightarrow> n),
         enableChangeTracking = (case enableChangeTracking_option of None \<Rightarrow> True | Some b \<Rightarrow> b)\<rparr>,
      entityMetadata = [],
      uow_connection = None,
      uow_isActive = True\<rparr>"

definition registerEntity :: "UnitOfWork \<Rightarrow> EntityMetadata \<Rightarrow> UnitOfWork" where
  "registerEntity uow metadata =
     uow\<lparr>entityMetadata := AList.update (md_entity metadata) metadata (entityMetadata uow)\<rparr>"

definition setConnection :: "UnitOfWork \<Rightarrow> uow_connection \<Rightarrow> UnitOfWork" where
  "setConnection uow conn = uow\<lparr>uow_connection := Some conn\<rparr>"

definition closedError :: js_error where
  "closedError = Err None ''Unit of Work has been closed''"

definition notRegistered :: "string \<Rightarrow> js_error" where
  "notRegistered entity = Err None (''Entity '' @ entity @ '' is not registered'')"

definition notLoaded :: "string \<Rightarrow> idval \<Rightarrow> js_error" where
  "notLoaded entity ident = Err None (''Entity '' @ entity @ '' with id '' @ js_String ident @ '' is not loaded'')"

function base_object :: "store \<Rightarrow> ref \<Rightarrow> hobj option" where
  "base_object st r =
     (case objects st r of
        Some (HRootProxy target cf entity ident) \<Rightarrow> if target < r then base_object st target else None
      | Some (HNestedProxy target cf path) \<Rightarrow> if target < r then base_object st target else None
      | other \<Rightarrow> other)"
  by pat_completeness auto
termination
  by (relation "measure (\<lambda>(st, r). r)") auto

definition raw_get :: "store \<Rightarrow> ref \<Rightarrow> string \<Rightarrow> jsval" where
  "raw_get st r name = (case base_object st r of Some obj \<Rightarrow> own_get obj (PStr name) | None \<Rightarrow> VUndefined)"

definition has_property :: "store \<Rightarrow> ref \<Rightarrow> string \<Rightarrow> bool" where
  "has_property st r name =
     (case base_object st r of
        Some (HObject fs) \<Rightarrow> map_of fs (PStr name) \<noteq> None
      | Some (HArray vs) \<Rightarrow>
          name = ''length'' \<or> name \<in> set array_methods \<or>
          (case array_index name of Some i \<Rightarrow> i < length vs | None \<Rightarrow> False)
      | _ \<Rightarrow> False)"

definition id_of_value :: "jsval \<Rightarrow> js_error + idval" where
  "id_of_value v =
     (case v of
        VUndefined \<Rightarrow> Inr IdUndefined
      | VNull \<Rightarrow> Inr IdNull
      | VBool b \<Rightarrow> Inr (IdBool b)
      | VNum n \<Rightarrow> Inr (IdNum n)
      | VStr s \<Rightarrow> Inr (IdStr s)
      | _ \<Rightarrow> Inl (Unmodelled ''a primary-key field that holds an object or a function''))"

fun extract_fields :: "store \<Rightarrow> ref \<Rightarrow> string list \<Rightarrow> (string \<times> idval) list \<Rightarrow> js_error + (string \<times> idval) list" where
  "extract_fields st data [] acc = Inr acc"
| "extract_fields st data (key # keys) acc =
     (case id_of_value (raw_get st data key) of
        Inl error \<Rightarrow> Inl error
      | Inr v \<Rightarrow> extract_fields st data keys (AList.update key v acc))"

definition extractId :: "store \<Rightarrow> ref \<Rightarrow> EntityMetadata \<Rightarrow> js_error + idval" where
  "extractId st data metadata =
     (case md_primaryKey metadata of
        Inr keys \<Rightarrow>
          (case extract_fields st data keys [] of
             Inl error \<Rightarrow> Inl error
           | Inr fs \<Rightarrow> Inr (IdObj fs))
      | Inl primaryKey \<Rightarrow> id_of_value (raw_get st data primaryKey))"

text \<open>The tracked proxy takes the place of the raw instance in the identity map.\<close>

definition replace_in_identityMap :: "IdentityMap \<Rightarrow> string \<Rightarrow> idval \<Rightarrow> ref \<Rightarrow> (js_error + ref) \<times> IdentityMap" where
  "replace_in_identityMap im entity ident tracked =
     (case identityMap_delete im entity ident of
        (Inl error, im1) \<Rightarrow> (Inl error, im1)
      | (Inr removed, im1) \<Rightarrow> identityMap_set im1 entity ident tracked)"

definition uow_get ::
  "store \<Rightarrow> UnitOfWork \<Rightarrow> string \<Rightarrow> idval \<Rightarrow> ref option \<Rightarrow> (js_error + ref option) \<times> store \<times> UnitOfWork" where
  "uow_get st uow entity ident data_option =
     (if \<not> uow_isActive uow then (Inl closedError, st, uow)
      else
        (case identityMap_get (identityMap uow) entity ident of
           Inl error \<Rightarrow> (Inl error, st, uow)
         | Inr (Some instance) \<Rightarrow> (Inr (Some instance), st, uow)
         | Inr None \<Rightarrow>
             (case data_option of
                None \<Rightarrow> (Inr None, st, uow)
              | Some data \<Rightarrow>
                  (case identityMap_set (identityMap uow) entity ident data of
                     (Inl error, im1) \<Rightarrow> (Inl error, st, uow\<lparr>identityMap := im1\<rparr>)
                   | (Inr instance, im1) \<Rightarrow>
                       if enableChangeTracking (uow_options uow) then
                         (let (tracked, st1, tracker1) =
                                track st (changeTracker uow) entity ident instance False
                          in (case replace_in_identityMap im1 entity ident tracked of
                                (Inl error, im2) \<Rightarrow>
                                  (Inl error, st1, uow\<lparr>identityMap := im2, changeTracker := tracker1\<rparr>)
                              | (Inr stored, im2) \<Rightarrow>
                                  (Inr (Some tracked), st1,
                                   uow\<lparr>identityMap := im2, changeTracker := tracker1\<rparr>)))
                       else (Inr (Some instance), st, uow\<lparr>identityMap := im1\<rparr>)))))"

definition uow_create ::
  "store \<Rightarrow> UnitOfWork \<Rightarrow> string \<Rightarrow> ref \<Rightarrow> (js_error + ref) \<times> store \<times> UnitOfWork" where
  "uow_create st uow entity data =
     (if \<not> uow_isActive uow then (Inl closedError, st, uow)
      else
        (case map_of (entityMetadata uow) entity of
           None \<Rightarrow> (Inl (notRegistered entity), st, uow)
         | Some metadata \<Rightarrow>
             (case extractId st data metadata of
                Inl error \<Rightarrow> (Inl error, st, uow)
              | Inr ident \<Rightarrow>
                  (case identityMap_get (identityMap uow) entity ident of
                     Inl error \<Rightarrow> (Inl error, st, uow)
                   | Inr (Some existing) \<Rightarrow> (Inr existing, st, uow)
                   | Inr None \<Rightarrow>
                       (case identityMap_set (identityMap uow) entity ident data of
                          (Inl error, im1) \<Rightarrow> (Inl error, st, uow\<lparr>identityMap := im1\<rparr>)
                        | (Inr instance, im1) \<Rightarrow>
                            if enableChangeTracking (uow_options uow) then
                              (let (tracked, st1, tracker1) =
                                     track st (changeTracker uow) entity ident instance True
                               in (case replace_in_identityMap im1 entity ident tracked of
                                     (Inl error, im2) \<Rightarrow>
                                       (Inl error, st1, uow\<lparr>identityMap := im2, changeTracker := tracker1\<rparr>)
                                   | (Inr stored, im2) \<Rightarrow>
                                       (Inr tracked, st1,
                                        uow\<lparr>identityMap := im2, changeTracker := tracker1\<rparr>)))
                            else (Inr instance, st, uow\<lparr>identityMap := im1\<rparr>))))))"

definition uow_delete :: "UnitOfWork \<Rightarrow> string \<Rightarrow> idval \<Rightarrow> js_error + UnitOfWork" where
  "uow_delete uow entity ident =
     (if \<not> uow_isActive uow then Inl closedError
      else
        (case identityMap_has (identityMap uow) entity ident of
           Inl error \<Rightarrow> Inl error
         | Inr False \<Rightarrow> Inl (notLoaded entity ident)
         | Inr True \<Rightarrow>
             (case markDeleted (changeTracker uow) entity ident of
                Inl error \<Rightarrow> Inl error
              | Inr tracker1 \<Rightarrow> Inr (uow\<lparr>changeTracker := tracker1\<rparr>))))"

definition persist ::
  "store \<Rightarrow> UnitOfWork \<Rightarrow> string \<Rightarrow> ref \<Rightarrow> (js_error + ref) \<times> store \<times> UnitOfWork" where
  "persist st uow entity instance =
     (if \<not> uow_isActive uow then (Inl closedError, st, uow)
      else
        (case map_of (entityMetadata uow) entity of
           None \<Rightarrow> (Inl (notRegistered entity), st, uow)
         | Some metadata \<Rightarrow>
             (case extractId st instance metadata of
                Inl error \<Rightarrow> (Inl error, st, uow)
              | Inr ident \<Rightarrow>
                  (case identityMap_set (identityMap uow) entity ident instance of
                     (Inl error, im1) \<Rightarrow> (Inl error, st, uow\<lparr>identityMap := im1\<rparr>)
                   | (Inr managed, im1) \<Rightarrow>
                       if enableChangeTracking (uow_options uow) then
                         (let (tracked, st1, tracker1) =
                                track st (changeTracker uow) entity ident managed True
                          in (Inr tracked, st1, uow\<lparr>identityMap := im1, changeTracker := tracker1\<rparr>))
                       else (Inr managed, st, uow\<lparr>identityMap := im1\<rparr>)))))"

definition uow_getChanges :: "store \<Rightarrow> UnitOfWork \<Rightarrow> EntityChange list" where
  "uow_getChanges st uow = getChanges st (changeTracker uow)"

definition uow_hasChanges :: "store \<Rightarrow> UnitOfWork \<Rightarrow> bool" where
  "uow_hasChanges st uow = (length (getChanges st (changeTracker uow)) > 0)"


definition placeholder :: "nat \<Rightarrow> string" where
  "placeholder paramIndex = ''$'' @ show_nat paramIndex"

definition noMetadata :: "string \<Rightarrow> js_error" where
  "noMetadata entity = Err None (''No metadata for entity '' @ entity)"

definition id_field :: "idval \<Rightarrow> string \<Rightarrow> idval" where
  "id_field ident key =
     (case ident of
        IdObj fs \<Rightarrow> (case map_of fs key of Some v \<Rightarrow> v | None \<Rightarrow> IdUndefined)
      | _ \<Rightarrow> IdUndefined)"

definition truthy_column :: "string option \<Rightarrow> bool" where
  "truthy_column column = (case column of Some c \<Rightarrow> c \<noteq> [] | None \<Rightarrow> False)"

definition column_text :: "string option \<Rightarrow> string" where
  "column_text column = (case column of Some c \<Rightarrow> c | None \<Rightarrow> ''undefined'')"

fun where_conditions ::
  "idval \<Rightarrow> (string \<times> string) list \<Rightarrow> string list \<Rightarrow> nat \<Rightarrow> string list \<times> param list" where
  "where_conditions ident columns [] paramIndex = ([], [])"
| "where_conditions ident columns (key # keys) paramIndex =
     (if truthy_column (map_of columns key) then
        (let (conditions, vals) = where_conditions ident columns keys (paramIndex + 1)
         in ((column_text (map_of columns key) @ '' = '' @ placeholder paramIndex) # conditions,
             PId (id_field ident key) # vals))
      else where_conditions ident columns keys paramIndex)"

definition buildWhereClause ::
  "idval \<Rightarrow> EntityMetadata \<Rightarrow> param list \<Rightarrow> nat \<Rightarrow> string \<times> param list" where
  "buildWhereClause ident metadata vals startIndex =
     (case md_primaryKey metadata of
        Inr keys \<Rightarrow>
          (let (conditions, more) = where_conditions ident (md_columns metadata) keys startIndex
           in (join '' AND '' conditions, vals @ more))
      | Inl primaryKey \<Rightarrow>
          (column_text (map_of (md_columns metadata) primaryKey) @ '' = '' @ placeholder startIndex,
           vals @ [PId ident]))"

definition delete_sql :: "string \<Rightarrow> string \<Rightarrow> string" where
  "delete_sql table whereClause = ''DELETE FROM '' @ table @ '' WHERE '' @ whereClause"

definition update_sql :: "string \<Rightarrow> string list \<Rightarrow> string \<Rightarrow> string" where
  "update_sql table setClauses whereClause =
     [CHR 0x0A] @ ''      UPDATE '' @ table @ [CHR 0x0A] @
     ''      SET '' @ join '', '' setClauses @ [CHR 0x0A] @
     ''      WHERE '' @ whereClause @ [CHR 0x0A] @ ''    ''"

definition insert_sql :: "string \<Rightarrow> string list \<Rightarrow> string list \<Rightarrow> string" where
  "insert_sql table cols placeholders =
     [CHR 0x0A] @ ''      INSERT INTO '' @ table @ '' ('' @ join '', '' cols @ '')'' @ [CHR 0x0A] @
     ''      VALUES ('' @ join '', '' placeholders @ '')'' @ [CHR 0x0A] @
     ''      RETURNING *'' @ [CHR 0x0A] @ ''    ''"

definition uow_query :: "uow_connection \<Rightarrow> statement list \<Rightarrow> statement \<Rightarrow> js_error option \<times> statement list" where
  "uow_query conn sent s = (conn sent s, sent @ [s])"

definition executeDelete ::
  "UnitOfWork \<Rightarrow> uow_connection \<Rightarrow> statement list \<Rightarrow> EntityChange \<Rightarrow> js_error option \<times> statement list" where
  "executeDelete uow conn sent change =
     (case map_of (entityMetadata uow) (change_entity change) of
        None \<Rightarrow> (Some (noMetadata (change_entity change)), sent)
      | Some metadata \<Rightarrow>
          (let (whereClause, vals) = buildWhereClause (change_id change) metadata [] 1
           in uow_query conn sent (Statement (delete_sql (md_table metadata) whereClause) vals)))"

fun set_clauses ::
  "store \<Rightarrow> ref \<Rightarrow> (string \<times> string) list \<Rightarrow> string list \<Rightarrow> nat \<Rightarrow> string list \<times> param list" where
  "set_clauses st currentData columns [] paramIndex = ([], [])"
| "set_clauses st currentData columns (field # names) paramIndex =
     (if truthy_column (map_of columns field) then
        (let (clauses, vals) = set_clauses st currentData columns names (paramIndex + 1)
         in ((column_text (map_of columns field) @ '' = '' @ placeholder paramIndex) # clauses,
             PValue (raw_get st currentData field) # vals))
      else set_clauses st currentData columns names paramIndex)"

definition typeError :: js_error where
  "typeError = Err None ''TypeError: cannot read properties of undefined''"

definition executeUpdate ::
  "store \<Rightarrow> UnitOfWork \<Rightarrow> uow_connection \<Rightarrow> statement list \<Rightarrow> EntityChange \<Rightarrow> js_error option \<times> statement list" where
  "executeUpdate st uow conn sent change =
     (case map_of (entityMetadata uow) (change_entity change) of
        None \<Rightarrow> (Some (noMetadata (change_entity change)), sent)
      | Some metadata \<Rightarrow>
          (case change_changedFields change of
             None \<Rightarrow> (None, sent)
           | Some [] \<Rightarrow> (None, sent)
           | Some names \<Rightarrow>
               (case change_currentData change of
                  None \<Rightarrow>
                    if \<exists>field \<in> set names. truthy_column (map_of (md_columns metadata) field)
                    then (Some typeError, sent) else (None, sent)
                | Some currentData \<Rightarrow>
                    (let (setClauses, vals) = set_clauses st currentData (md_columns metadata) names 1
                     in if length setClauses = 0 then (None, sent)
                        else
                          (let (whereClause, vals') =
                                 buildWhereClause (change_id change) metadata vals (length setClauses + 1)
                           in uow_query conn sent
                                (Statement (update_sql (md_table metadata) setClauses whereClause) vals'))))))"

definition executeCreate ::
  "store \<Rightarrow> UnitOfWork \<Rightarrow> uow_connection \<Rightarrow> statement list \<Rightarrow> EntityChange \<Rightarrow> js_error option \<times> statement list" where
  "executeCreate st uow conn sent change =
     (case map_of (entityMetadata uow) (change_entity change) of
        None \<Rightarrow> (Some (noMetadata (change_entity change)), sent)
      | Some metadata \<Rightarrow>
          (case change_currentData change of
             None \<Rightarrow> if md_columns metadata = [] then
                       uow_query conn sent (Statement (insert_sql (md_table metadata) [] []) [])
                     else (Some typeError, sent)
           | Some currentData \<Rightarrow>
               (let present = filter (\<lambda>(prop, column). has_property st currentData prop) (md_columns metadata);
                    cols = map snd present;
                    vals = map (\<lambda>(prop, column). PValue (raw_get st currentData prop)) present;
                    placeholders = map placeholder [1..<length present + 1]
                in uow_query conn sent (Statement (insert_sql (md_table metadata) cols placeholders) vals))))"

fun run_each ::
  "(statement list \<Rightarrow> EntityChange \<Rightarrow> js_error option \<times> statement list) \<Rightarrow> statement list \<Rightarrow> EntityChange list
     \<Rightarrow> js_error option \<times> statement list" where
  "run_each execute sent [] = (None, sent)"
| "run_each execute sent (change # rest) =
     (case execute sent change of
        (Some error, sent1) \<Rightarrow> (Some error, sent1)
      | (None, sent1) \<Rightarrow> run_each execute sent1 rest)"

definition noConnection :: js_error where
  "noConnection = Err None ''No database connection set''"

text \<open>The statements of the try block, BEGIN to COMMIT.\<close>

definition commit_statements ::
  "store \<Rightarrow> UnitOfWork \<Rightarrow> uow_connection \<Rightarrow> statement list \<Rightarrow> EntityChange list \<Rightarrow> js_error option \<times> statement list" where
  "commit_statements st uow conn sent changes =
     (case uow_query conn sent (Statement ''BEGIN'' []) of
        (Some error, sent1) \<Rightarrow> (Some error, sent1)
      | (None, sent1) \<Rightarrow>
          (let creates = filter (\<lambda>c. change_type c = Created) changes;
               updates = filter (\<lambda>c. change_type c = Updated) changes;
               deletes = filter (\<lambda>c. change_type c = Deleted) changes
           in (case run_each (executeDelete uow conn) sent1 deletes of
                 (Some error, sent2) \<Rightarrow> (Some error, sent2)
               | (None, sent2) \<Rightarrow>
                   (case run_each (executeUpdate st uow conn) sent2 updates of
                      (Some error, sent3) \<Rightarrow> (Some error, sent3)
                    | (None, sent3) \<Rightarrow>
                        (case run_each (executeCreate st uow conn) sent3 creates of
                           (Some error, sent4) \<Rightarrow> (Some error, sent4)
                         | (None, sent4) \<Rightarrow> uow_query conn sent4 (Statement ''COMMIT'' []))))))"

text \<open>The loop after COMMIT: re-baseline every committed entity, evict the deleted ones.\<close>

fun reset_committed ::
  "store \<Rightarrow> UnitOfWork \<Rightarrow> EntityChange list \<Rightarrow> js_error option \<times> store \<times> UnitOfWork" where
  "reset_committed st uow [] = (None, st, uow)"
| "reset_committed st uow (change # rest) =
     (let (st1, tracker1) = resetChanges st (changeTracker uow) (change_entity change) (change_id change);
          uow1 = uow\<lparr>changeTracker := tracker1\<rparr>
      in if change_type change = Deleted then
           (case identityMap_delete (identityMap uow1) (change_entity change) (change_id change) of
              (Inl error, im1) \<Rightarrow> (Some error, st1, uow1\<lparr>identityMap := im1\<rparr>)
            | (Inr removed, im1) \<Rightarrow> reset_committed st1 (uow1\<lparr>identityMap := im1\<rparr>) rest)
         else reset_committed st1 uow1 rest)"

definition rollback_and_rethrow ::
  "uow_connection \<Rightarrow> statement list \<Rightarrow> js_error \<Rightarrow> js_error \<times> statement list" where
  "rollback_and_rethrow conn sent error =
     (case uow_query conn sent (Statement ''ROLLBACK'' []) of
        (Some rollbackError, sent1) \<Rightarrow> (rollbackError, sent1)
      | (None, sent1) \<Rightarrow> (error, sent1))"

definition commit ::
  "store \<Rightarrow> statement list \<Rightarrow> UnitOfWork \<Rightarrow> (js_error + CommitResult) \<times> store \<times> statement list \<times> UnitOfWork" where
  "commit st sent uow =
     (if \<not> uow_isActive uow then (Inl closedError, st, sent, uow)
      else
        (case uow_connection uow of
           None \<Rightarrow> (Inl noConnection, st, sent, uow)
         | Some conn \<Rightarrow>
             (let changes = getChanges st (changeTracker uow)
              in if length changes = 0
                 then (Inr \<lparr>created = 0, updated = 0, deleted = 0\<rparr>, st, sent, uow)
                 else
                   (case commit_statements st uow conn sent changes of
                      (Some error, sent1) \<Rightarrow>
                        (let (thrown, sent2) = rollback_and_rethrow conn sent1 error
                         in (Inl thrown, st, sent2, uow))
                    | (None, sent1) \<Rightarrow>
                        (case reset_committed st uow changes of
                           (Some error, st1, uow1) \<Rightarrow>
                             (let (thrown, sent2) = rollback_and_rethrow conn sent1 error
                              in (Inl thrown, st1, sent2, uow1))
                         | (None, st1, uow1) \<Rightarrow>
                             (Inr \<lparr>created = length (filter (\<lambda>c. change_type c = Created) changes),
                                   updated = length (filter (\<lambda>c. change_type c = Updated) changes),
                                   deleted = length (filter (\<lambda>c. change_type c = Deleted) changes)\<rparr>,
                              st1, sent1, uow1))))))"

definition uow_clear :: "UnitOfWork \<Rightarrow> UnitOfWork" where
  "uow_clear uow = uow\<lparr>identityMap := identityMap_clear (identityMap uow),
                        changeTracker := tracker_clear (changeTracker uow)\<rparr>"

definition uow_close :: "UnitOfWork \<Rightarrow> UnitOfWork" where
  "uow_close uow = (uow_clear uow)\<lparr>uow_isActive := False\<rparr>"

section \<open>Schedules and inputs the statements below refer to\<close>

text \<open>
  The delay the reconnection loop waits before its attempt number \<open>attempt\<close>, counted
  from one, and the two entries every attempt adds to the result.
\<close>

definition reconnection_delay :: "reconnection_config \<Rightarrow> nat \<Rightarrow> int" where
  "reconnection_delay cfg attempt =
     (if exponentialBackoff cfg then retryDelay cfg * 2 ^ (attempt - 1) else retryDelay cfg)"

definition attempt_events :: "reconnection_config \<Rightarrow> nat \<Rightarrow> pool_event list" where
  "attempt_events cfg attempt =
     [ReconnectionAttempt attempt (reconnection_delay cfg attempt), Wait (reconnection_delay cfg attempt)]"

definition cfg5 :: reconnection_config where
  "cfg5 = \<lparr>enabled = True, maxRetries = 2, retryDelay = 1000, exponentialBackoff = True\<rparr>"

text \<open>
  The transaction registered under an id, if it is registered and active: what the savepoint
  operations look up first.
\<close>

definition active_transaction :: "TransactionManager \<Rightarrow> string \<Rightarrow> TransactionContext option" where
  "active_transaction m transactionId =
     (case map_of (activeTransactions m) transactionId of
        Some transaction \<Rightarrow> if isActive transaction then Some transaction else None
      | None \<Rightarrow> None)"

text \<open>
  The delays slept, oldest first. The state in which the loop of \<^verbatim>\<open>withTransaction\<close> starts
  its next attempt after an attempt has failed with a deadlock: the state the failed attempt
  left, then the \<^verbatim>\<open>deadlockRetry\<close> notification and the wait before retry \<open>k\<close>.
\<close>

fun slept :: "tm_event list \<Rightarrow> int list" where
  "slept [] = []"
| "slept (Sleep d # es) = d # slept es"
| "slept (e # es) = slept es"


text \<open>
  Inputs: a connection that accepts every statement, and one that rejects the first
  \<^verbatim>\<open>COMMIT\<close> it is sent with a serialization failure; a timer that never fires first; the
  options \<^verbatim>\<open>{retryOnDeadlock: true, maxRetries: 3, retryDelay: 50}\<close>, and the same with
  \<^verbatim>\<open>retryDelay: 0\<close>; a fresh manager; a callback that fails with a deadlock twice and then
  resolves with 7, one that does the same after creating a savepoint, one that fails with a
  deadlock and then with a unique-constraint violation, and one that always fails with a
  unique-constraint violation.
\<close>

definition accepting :: connection where
  "accepting h q = None"



definition never :: "nat \<Rightarrow> bool" where
  "never k = False"

definition opts3 :: TransactionOptions where
  "opts3 = \<lparr>isolationLevel_opt = None, timeout_opt = None, retryOnDeadlock = True,
     maxRetries_opt = Some 3, retryDelay_opt = Some 50, readOnly_opt = False, deferrable = False\<rparr>"

definition opts0 :: TransactionOptions where
  "opts0 = opts3\<lparr>retryDelay_opt := Some 0\<rparr>"

definition tm_idle :: TransactionManager where
  "tm_idle = \<lparr>activeTransactions = [], nextTransactionId = 1, nextSavepointId = 1, trace = []\<rparr>"

definition deadlock_error :: js_error where
  "deadlock_error = Err (Some ''40P01'') ''deadlock detected''"

definition unique_violation :: js_error where
  "unique_violation = Err (Some ''23505'') ''duplicate key value''"

definition deadlocks_twice :: "nat callback" where
  "deadlocks_twice k ctx m = (if k < 2 then (Inl deadlock_error, m) else (Inr 7, m))"




text \<open>The state inside the callback of a first root transaction, after three
  \<^verbatim>\<open>createSavepoint\<close> calls with the names a, b, a.\<close>

definition tx_open :: TransactionContext where
  "tx_open = \<lparr>tx_id = ''tx_1'', level = 0, isolationLevel = None, savepoints = [],
     readOnly = False, isActive = True\<rparr>"

definition tm_open :: TransactionManager where
  "tm_open = \<lparr>activeTransactions = [(''tx_1'', tx_open)], nextTransactionId = 2,
     nextSavepointId = 1, trace = [Query ''BEGIN'', TransactionStarted ''tx_1'' 0 1]\<rparr>"

definition tm_aba :: TransactionManager where
  "tm_aba =
     snd (createSavepoint accepting ''tx_1'' (Some ''a'')
       (snd (createSavepoint accepting ''tx_1'' (Some ''b'')
         (snd (createSavepoint accepting ''tx_1'' (Some ''a'') tm_open)))))"





text \<open>
  Key objects are numbered as they are created, so the ones in use lie below
  \<open>nextKeyObject\<close>: an invariant of every identity map built by \<open>new_IdentityMap\<close> and the
  operations, and what makes a newly created key object a new one.
\<close>

definition keys_fresh :: "IdentityMap \<Rightarrow> bool" where
  "keys_fresh im =
     (list_all (\<lambda>(entity, es). list_all (\<lambda>(k, v). k < nextKeyObject im) es) (maps im)
      \<and> list_all (\<lambda>(key, keyObj). keyObj < nextKeyObject im) (keyRegistry im))"

text \<open>
  Inputs for the unit of work: the metadata of the kind User as the tests register it, a
  connection that accepts every statement, a unit of work with default options, that
  metadata and that connection, and a store holding two user objects with the same id 1 (at
  the references 0 and 1).
\<close>

definition user_metadata :: EntityMetadata where
  "user_metadata = \<lparr>md_entity = ''User'', md_table = ''users'', md_primaryKey = Inl ''id'',
     md_columns = [(''id'', ''id''), (''name'', ''name''), (''email'', ''email''), (''age'', ''age'')]\<rparr>"

definition accepts_all :: uow_connection where
  "accepts_all sent s = None"

definition user_object :: "int \<Rightarrow> string \<Rightarrow> string \<Rightarrow> hobj" where
  "user_object i name email =
     HObject [(PStr ''id'', VNum i), (PStr ''name'', VStr name), (PStr ''email'', VStr email)]"

definition uow_users :: UnitOfWork where
  "uow_users = setConnection (registerEntity (new_UnitOfWork None None None) user_metadata) accepts_all"

definition two_users :: store where
  "two_users =
     snd (alloc (snd (alloc empty_store (user_object 1 ''John'' ''john@example.com'')))
            (user_object 1 ''Jane'' ''jane@example.com''))"

text \<open>
  The kind of a statement, read off its text: the three transaction statements are exact
  texts, and the statements of \<^verbatim>\<open>executeDelete\<close>, \<^verbatim>\<open>executeUpdate\<close> and \<^verbatim>\<open>executeCreate\<close>
  begin with their keyword (after the line break and the indentation of the template).
\<close>

datatype stmt_kind = KBegin | KDelete | KUpdate | KInsert | KCommit | KRollback

definition statement_kind :: "statement \<Rightarrow> stmt_kind option" where
  "statement_kind s =
     (case s of Statement sql params \<Rightarrow>
        if sql = ''BEGIN'' then Some KBegin
        else if sql = ''COMMIT'' then Some KCommit
        else if sql = ''ROLLBACK'' then Some KRollback
        else if prefix ''DELETE FROM '' sql then Some KDelete
        else if prefix ([CHR 0x0A] @ ''      UPDATE '') sql then Some KUpdate
        else if prefix ([CHR 0x0A] @ ''      INSERT INTO '') sql then Some KInsert
        else None)"

text \<open>What one step of the batch adds to the statements sent: nothing, or one statement of
  the step's kind.\<close>

definition adds :: "stmt_kind \<Rightarrow> statement list \<Rightarrow> statement list \<Rightarrow> bool" where
  "adds k sent sent1 =
     (sent1 = sent \<or> (\<exists>s. sent1 = sent @ [s] \<and> statement_kind s = Some k))"

text \<open>The pending changes of one type, in the order \<^verbatim>\<open>getChanges\<close> lists them.\<close>

definition pending :: "ChangeType \<Rightarrow> EntityChange list \<Rightarrow> EntityChange list" where
  "pending t changes = filter (\<lambda>c. change_type c = t) changes"

text \<open>
  The unit of work of the test that commits a create, an update and a delete together: user
  2 created, user 1 loaded and renamed through its proxy, user 3 loaded and deleted.
\<close>

definition three_changes :: "store \<times> UnitOfWork" where
  "three_changes =
     (let (newUser, s1) = alloc empty_store (user_object 2 ''New'' ''new@example.com'');
          (r1, s2, uow1) = uow_create s1 uow_users ''User'' newUser;
          (existingUser, s3) = alloc s2 (user_object 1 ''John'' ''john@example.com'');
          (r2, s4, uow2) = uow_get s3 uow1 ''User'' (IdNum 1) (Some existingUser);
          s5 = (case r2 of
                  Inr (Some tracked) \<Rightarrow>
                    reflect_set (entityProxies (changeTracker uow2)) s4 tracked (PStr ''name'') (VStr ''Updated'')
                | _ \<Rightarrow> s4);
          (toDelete, s6) = alloc s5 (user_object 3 ''Delete'' ''delete@example.com'');
          (r3, s7, uow3) = uow_get s6 uow2 ''User'' (IdNum 3) (Some toDelete);
          uow4 = (case uow_delete uow3 ''User'' (IdNum 3) of Inr u \<Rightarrow> u | Inl e \<Rightarrow> uow3)
      in (s7, uow4))"

definition connection_lost :: js_error where
  "connection_lost = Err (Some ''08006'') ''connection failure''"

text \<open>A server that rejects every INSERT.\<close>

definition rejects_insert :: uow_connection where
  "rejects_insert sent s = (if statement_kind s = Some KInsert then Some unique_violation else None)"

text \<open>A connection that is lost when the INSERT is sent: the INSERT fails, and so does
  everything after it.\<close>

definition lost_at_insert :: uow_connection where
  "lost_at_insert sent s =
     (if statement_kind s = Some KInsert then Some unique_violation
      else if Some KInsert \<in> set (map statement_kind sent) then Some connection_lost
      else None)"

text \<open>The commit of those three changes on a given connection.\<close>

definition commit_three ::
  "uow_connection \<Rightarrow> (js_error + CommitResult) \<times> store \<times> statement list \<times> UnitOfWork" where
  "commit_three conn = (case three_changes of (st, uow) \<Rightarrow> commit st [] (setConnection uow conn))"

text \<open>
  Expressions on a wrapped instance. \<^verbatim>\<open>wrapped.a.b\<close> reads one property after the other,
  each read going through the proxy the read before it returned; \<open>access\<close> follows such a
  chain as long as every read yields an object, and returns the last one. \<open>assign\<close> is the
  assignment \<^verbatim>\<open>wrapped.a.b.k = v\<close>, \<open>js_delete\<close> is \<^verbatim>\<open>delete wrapped.a.b.k\<close>, \<open>invoke\<close> is
  the call \<^verbatim>\<open>wrapped.a.b.m(...args)\<close>; each leaves the store as it is when the chain does not
  reach an object, and the call does no more than the reads when the property is not a
  function. \<open>current\<close> is the value the property has in the object the chain reaches, read
  on the proxy's target as the root proxy's \<^verbatim>\<open>set\<close> trap reads \<^verbatim>\<open>oldValue\<close>. A plain object
  or array is one that is neither a proxy nor a set.
\<close>

fun access :: "ref list \<Rightarrow> store \<Rightarrow> ref \<Rightarrow> string list \<Rightarrow> (ref \<times> store) option" where
  "access eps st r [] = Some (r, st)"
| "access eps st r (name # names) =
     (case reflect_get eps st r (PStr name) of
        (VRef r', st1) \<Rightarrow> access eps st1 r' names
      | _ \<Rightarrow> None)"

definition proxy_target :: "store \<Rightarrow> ref \<Rightarrow> ref option" where
  "proxy_target st r =
     (case objects st r of
        Some (HRootProxy t cf entity ident) \<Rightarrow> Some t
      | Some (HNestedProxy t cf path) \<Rightarrow> Some t
      | _ \<Rightarrow> None)"

definition assign :: "ref list \<Rightarrow> store \<Rightarrow> ref \<Rightarrow> string list \<Rightarrow> string \<Rightarrow> jsval \<Rightarrow> store" where
  "assign eps st p names k v =
     (case access eps st p names of
        Some (q, st1) \<Rightarrow> reflect_set eps st1 q (PStr k) v
      | None \<Rightarrow> st)"

definition js_delete :: "ref list \<Rightarrow> store \<Rightarrow> ref \<Rightarrow> string list \<Rightarrow> string \<Rightarrow> store" where
  "js_delete eps st p names k =
     (case access eps st p names of
        Some (q, st1) \<Rightarrow> reflect_deleteProperty st1 q (PStr k)
      | None \<Rightarrow> st)"

definition invoke :: "ref list \<Rightarrow> store \<Rightarrow> ref \<Rightarrow> string list \<Rightarrow> string \<Rightarrow> jsval list \<Rightarrow> store" where
  "invoke eps st p names m args =
     (case access eps st p names of
        Some (q, st1) \<Rightarrow>
          (case reflect_get eps st1 q (PStr m) of
             (VFun g, st2) \<Rightarrow> snd (call_fn st2 g q args)
           | (v, st2) \<Rightarrow> st2)
      | None \<Rightarrow> st)"

definition current :: "ref list \<Rightarrow> store \<Rightarrow> ref \<Rightarrow> string list \<Rightarrow> string \<Rightarrow> jsval" where
  "current eps st p names k =
     (case access eps st p names of
        Some (q, st1) \<Rightarrow>
          (case proxy_target st1 q of
             Some t \<Rightarrow> fst (reflect_get eps st1 t (PStr k))
           | None \<Rightarrow> fst (reflect_get eps st1 q (PStr k)))
      | None \<Rightarrow> VUndefined)"

definition reaches :: "ref list \<Rightarrow> store \<Rightarrow> ref \<Rightarrow> string list \<Rightarrow> bool" where
  "reaches eps st p names = (\<not> Option.is_none (access eps st p names))"

definition reaches_array :: "ref list \<Rightarrow> store \<Rightarrow> ref \<Rightarrow> string list \<Rightarrow> bool" where
  "reaches_array eps st p names =
     (case access eps st p names of Some (q, st1) \<Rightarrow> isArray st1 q | None \<Rightarrow> False)"

definition plain :: "store \<Rightarrow> ref \<Rightarrow> bool" where
  "plain st r = (case objects st r of Some (HObject fs) \<Rightarrow> True | Some (HArray vs) \<Rightarrow> True | _ \<Rightarrow> False)"

definition reaches_plain :: "ref list \<Rightarrow> store \<Rightarrow> ref \<Rightarrow> string list \<Rightarrow> bool" where
  "reaches_plain eps st p names =
     (case access eps st p names of
        Some (q, st1) \<Rightarrow> (case proxy_target st1 q of Some t \<Rightarrow> plain st1 t | None \<Rightarrow> False)
      | None \<Rightarrow> False)"

text \<open>
  A value that is the wrapped instance of a tracked entity: the root proxy's \<^verbatim>\<open>get\<close> trap
  hands those out as they are. The path of a nested proxy reached from a path by further
  reads. A path is marked in a set of changed fields when the set is an allocated object of
  the store and holds the path.
\<close>

definition wrapped_entity :: "ref list \<Rightarrow> jsval \<Rightarrow> bool" where
  "wrapped_entity eps v = (case v of VRef t \<Rightarrow> t \<in> set eps | _ \<Rightarrow> False)"

definition dotted :: "string \<Rightarrow> string list \<Rightarrow> string" where
  "dotted path names = foldl (\<lambda>p name. p @ ''.'' @ name) path names"

definition marked :: "store \<Rightarrow> ref \<Rightarrow> string \<Rightarrow> bool" where
  "marked st cf path = (cf < next_ref st \<and> path \<in> set (set_values st cf))"

text \<open>
  Two relations between a store and a later one: the later store has every object of the
  earlier one unchanged and may have new ones; every set of the earlier store is still a set
  in the later one and has lost no element.
\<close>

definition extends :: "store \<Rightarrow> store \<Rightarrow> bool" where
  "extends st st' =
     (next_ref st \<le> next_ref st' \<and> (\<forall>x < next_ref st. objects st' x = objects st x))"

definition sets_grow :: "store \<Rightarrow> store \<Rightarrow> bool" where
  "sets_grow st st' =
     (next_ref st \<le> next_ref st' \<and>
      (\<forall>c xs. c < next_ref st \<longrightarrow> objects st c = Some (HSet xs) \<longrightarrow>
         (\<exists>ys. objects st' c = Some (HSet ys) \<and> set xs \<subseteq> set ys)))"

text \<open>
  The set a proxy adds to. A tracked instance: the proxy \<^verbatim>\<open>track\<close> returned for the data, with
  the set of changed fields \<^verbatim>\<open>track\<close> created for it. \<^verbatim>\<open>track\<close> creates the set after the
  data exists and before it creates the proxy, so the data is older than the set, the set
  older than the proxy, and no proxy older than the set adds to it. A later store has the
  same proxies as an earlier one when every reference of the earlier store that was a proxy
  is the same proxy still, and no other reference of the earlier store has become one.
\<close>

definition proxy_set :: "store \<Rightarrow> ref \<Rightarrow> ref option" where
  "proxy_set st r =
     (case objects st r of
        Some (HRootProxy t cf entity ident) \<Rightarrow> Some cf
      | Some (HNestedProxy t cf path) \<Rightarrow> Some cf
      | _ \<Rightarrow> None)"

definition unused_before :: "store \<Rightarrow> ref \<Rightarrow> bool" where
  "unused_before st cf = list_all (\<lambda>r. proxy_set st r \<noteq> Some cf) [0..<cf]"

definition tracked_instance :: "store \<Rightarrow> ref \<Rightarrow> ref \<Rightarrow> ref \<Rightarrow> string \<Rightarrow> idval \<Rightarrow> bool" where
  "tracked_instance st p obj cf entity ident =
     (objects st p = Some (HRootProxy obj cf entity ident)
      \<and> (case objects st cf of Some (HSet xs) \<Rightarrow> True | _ \<Rightarrow> False)
      \<and> obj < cf \<and> cf < p \<and> p < next_ref st
      \<and> unused_before st cf)"

definition same_proxies :: "store \<Rightarrow> store \<Rightarrow> bool" where
  "same_proxies st st' =
     (next_ref st \<le> next_ref st' \<and>
      (\<forall>r < next_ref st. proxy_set st' r = proxy_set st r \<and>
         (proxy_set st r \<noteq> None \<longrightarrow> objects st' r = objects st r)))"

text \<open>
  A user with an address and a profile, tracked as an existing entity (not new), as in the
  tests of nested tracking; the same user after \<^verbatim>\<open>wrapped.name = 'Jane'\<close>.
\<close>

definition john_objects :: store where
  "john_objects =
     snd (alloc (snd (alloc (snd (alloc (snd (alloc empty_store
       (HArray [VStr ''tag1'', VStr ''tag2''])))
       (HObject [(PStr ''bio'', VStr ''Engineer''), (PStr ''tags'', VRef 0)])))
       (HObject [(PStr ''street'', VStr ''123 Main St''), (PStr ''city'', VStr ''Boston'')])))
       (HObject [(PStr ''id'', VNum 1), (PStr ''name'', VStr ''John''),
                 (PStr ''email'', VStr ''john@example.com''),
                 (PStr ''profile'', VRef 1), (PStr ''address'', VRef 2)]))"

definition tracked_john :: "ref \<times> store \<times> ChangeTracker" where
  "tracked_john = track john_objects new_ChangeTracker ''User'' (IdNum 1) 3 False"

definition john :: ref where
  "john = fst tracked_john"

definition john_store :: store where
  "john_store = fst (snd tracked_john)"

definition john_tracker :: ChangeTracker where
  "john_tracker = snd (snd tracked_john)"

definition john_renamed :: store where
  "john_renamed = assign (entityProxies john_tracker) john_store john [] ''name'' (VStr ''Jane'')"

text \<open>
  Two tracked users, the second holding the wrapped instance of the first in its property
  \<^verbatim>\<open>friend\<close>.
\<close>

definition pat_tracked :: "ref \<times> store \<times> ChangeTracker" where
  "pat_tracked =
     track (snd (alloc empty_store (HObject [(PStr ''id'', VNum 2), (PStr ''name'', VStr ''Pat'')])))
       new_ChangeTracker ''User'' (IdNum 2) 0 False"

definition ann_tracked :: "ref \<times> store \<times> ChangeTracker" where
  "ann_tracked =
     track (snd (alloc (fst (snd pat_tracked))
                   (HObject [(PStr ''id'', VNum 1), (PStr ''name'', VStr ''Ann''),
                             (PStr ''friend'', VRef (fst pat_tracked))])))
       (snd (snd pat_tracked)) ''User'' (IdNum 1) 3 False"

definition ann :: ref where
  "ann = fst ann_tracked"

definition friends_store :: store where
  "friends_store = fst (snd ann_tracked)"

definition friends_tracker :: ChangeTracker where
  "friends_tracker = snd (snd ann_tracked)"

chapter \<open>Properties\<close>

section \<open>Reconnection backoff\<close>

lemma upt_conv_Cons': "s < n \<Longrightarrow> [s..<n] = s # [Suc s..<n]"
  by (simp add: upt_conv_Cons)

lemma reconnection_success_from:
  assumes "\<forall>j. s \<le> j \<and> j < k \<longrightarrow> probe j \<noteq> None" "probe k = None" "s \<le> k" "int k < maxRetries cfg"
  shows "attemptReconnection cfg probe s =
           concat (map (attempt_events cfg) [Suc s..<Suc (Suc k)]) @ [ReconnectionSuccess (Suc k)]"
  using assms
proof (induction "k - s" arbitrary: s)
  case 0
  then have "s = k" by simp
  with 0 show ?case
    by (simp add: attemptReconnection.simps[of cfg probe k] healthCheck_def attempt_events_def
        reconnection_delay_def Let_def)
next
  case (Suc d)
  then have sk: "s < k" by simp
  with Suc.prems have ps: "probe s \<noteq> None" by simp
  from sk Suc.prems have lt: "\<not> int s \<ge> maxRetries cfg" by simp
  have IH: "attemptReconnection cfg probe (Suc s) =
           concat (map (attempt_events cfg) [Suc (Suc s)..<Suc (Suc k)]) @ [ReconnectionSuccess (Suc k)]"
    using Suc.hyps(1)[of "Suc s"] Suc.hyps(2) Suc.prems sk by simp
  have "[Suc s..<Suc (Suc k)] = Suc s # [Suc (Suc s)..<Suc (Suc k)]"
    using sk by (simp add: upt_conv_Cons')
  with IH ps lt show ?case
    by (auto simp: attemptReconnection.simps[of cfg probe s] healthCheck_def attempt_events_def
        reconnection_delay_def Let_def)
qed

lemma reconnection_failed_from:
  assumes "\<forall>j. s \<le> j \<and> j < n \<longrightarrow> probe j \<noteq> None" "s \<le> n" "int n = maxRetries cfg"
  shows "attemptReconnection cfg probe s =
           concat (map (attempt_events cfg) [Suc s..<Suc n]) @ [ReconnectionFailed n]"
  using assms
proof (induction "n - s" arbitrary: s)
  case 0
  then have "s = n" by simp
  with 0 show ?case
    by (simp add: attemptReconnection.simps[of cfg probe n])
next
  case (Suc d)
  then have sk: "s < n" by simp
  with Suc.prems have ps: "probe s \<noteq> None" by simp
  from sk Suc.prems have lt: "\<not> int s \<ge> maxRetries cfg" by simp
  have IH: "attemptReconnection cfg probe (Suc s) =
           concat (map (attempt_events cfg) [Suc (Suc s)..<Suc n]) @ [ReconnectionFailed n]"
    using Suc.hyps(1)[of "Suc s"] Suc.hyps(2) Suc.prems sk by simp
  have "[Suc s..<Suc n] = Suc s # [Suc (Suc s)..<Suc n]"
    using sk by (simp add: upt_conv_Cons')
  with IH ps lt show ?case
    by (auto simp: attemptReconnection.simps[of cfg probe s] healthCheck_def attempt_events_def
        reconnection_delay_def Let_def)
qed

text \<open>
  C8 (as amended). With exponential backoff the delay before reconnection attempt number
  \<open>a\<close>, counted from one, is \<open>retryDelay * 2 ^ (a - 1)\<close> (\<open>reconnection_delay\<close>); without, it is
  \<open>retryDelay\<close>. Every attempt emits its attempt notification and waits its delay. If the
  health checks of attempts \<open>1 .. k\<close> fail and that of attempt \<open>k + 1 \<le> maxRetries\<close>
  succeeds, the attempts \<open>1 .. k + 1\<close> are made and one success notification ends the run;
  if the first \<open>maxRetries\<close> health checks all fail, exactly \<open>maxRetries\<close> attempts are made
  and one failure notification ends the run. A failed attempt has no notification of its own.
\<close>

theorem reconnection_backoff_schedule:
  "((\<forall>j<k. probe j \<noteq> None) \<and> probe k = None \<and> int k < maxRetries cfg \<longrightarrow>
        attemptReconnection cfg probe 0 =
          concat (map (attempt_events cfg) [1..<Suc (Suc k)]) @ [ReconnectionSuccess (Suc k)])
   \<and> ((\<forall>j<n. probe j \<noteq> None) \<and> int n = maxRetries cfg \<longrightarrow>
        attemptReconnection cfg probe 0 =
          concat (map (attempt_events cfg) [1..<Suc n]) @ [ReconnectionFailed n])"
  using reconnection_success_from[of 0 k probe cfg] reconnection_failed_from[of 0 n probe cfg]
  by simp

theorem reconnection_backoff_schedule_witness:
  "attemptReconnection cfg5 (\<lambda>k. if k = 0 then Some ''down'' else None) 0 =
     [ReconnectionAttempt 1 1000, Wait 1000, ReconnectionAttempt 2 2000, Wait 2000, ReconnectionSuccess 2]
   \<and> attemptReconnection cfg5 (\<lambda>k. Some ''down'') 0 =
     [ReconnectionAttempt 1 1000, Wait 1000, ReconnectionAttempt 2 2000, Wait 2000, ReconnectionFailed 2]"
proof -
  have m: "maxRetries cfg5 = 2" by (simp add: cfg5_def)
  have a: "attemptReconnection cfg5 (\<lambda>k. if k = 0 then Some ''down'' else None) 0 =
          concat (map (attempt_events cfg5) [1..<Suc (Suc 1)]) @ [ReconnectionSuccess (Suc 1)]"
    using reconnection_backoff_schedule[where probe = "\<lambda>k. if k = 0 then Some ''down'' else None"
        and cfg = cfg5 and k = 1 and n = 0]
    by (simp add: m)
  have b: "attemptReconnection cfg5 (\<lambda>k. Some ''down'') 0 =
          concat (map (attempt_events cfg5) [1..<Suc 2]) @ [ReconnectionFailed 2]"
    using reconnection_backoff_schedule[where probe = "\<lambda>k. Some ''down''" and cfg = cfg5
        and k = 0 and n = 2]
    by (simp add: m)
  have u: "[1..<Suc (Suc 1)] = [1, 2]" "[1..<Suc 2] = [1, 2]" by (simp_all add: upt_conv_Cons')
  show ?thesis
    unfolding a b u by (simp add: attempt_events_def reconnection_delay_def cfg5_def)
qed

text \<open>
  The claim as stated gives attempt number 1 the delay \<open>retryDelay * 2 ^ 1\<close>. The code waits
  \<open>retryDelay * 2 ^ 0\<close> before it, and the failed first attempt is followed by the second
  attempt's notification, not by a failure notification.
\<close>

theorem reconnection_delay_counterexample:
  "attemptReconnection cfg5 (\<lambda>k. if k = 0 then Some ''down'' else None) 0 =
     [ReconnectionAttempt 1 1000, Wait 1000, ReconnectionAttempt 2 2000, Wait 2000, ReconnectionSuccess 2]
   \<and> (1000 :: int) \<noteq> retryDelay cfg5 * 2 ^ 1"
  by (simp add: attemptReconnection.simps healthCheck_def cfg5_def)



section \<open>Savepoints\<close>

lemma indexOf_Some_iff:
  "indexOf xs x = Some i \<longleftrightarrow> i < length xs \<and> xs ! i = x \<and> (\<forall>j<i. xs ! j \<noteq> x)"
proof (induction xs arbitrary: i)
  case Nil
  then show ?case by simp
next
  case (Cons y ys)
  show ?case
  proof (cases "y = x")
    case True
    then show ?thesis by (cases i) auto
  next
    case False
    show ?thesis
    proof (cases i)
      case 0
      with False show ?thesis by auto
    next
      case (Suc k)
      have "(\<forall>j<Suc k. (y # ys) ! j \<noteq> x) \<longleftrightarrow> (\<forall>j<k. ys ! j \<noteq> x)"
        using False by (auto simp: less_Suc_eq_0_disj)
      with Suc False Cons.IH[of k] show ?thesis by auto
    qed
  qed
qed

lemma indexOf_None_iff: "indexOf xs x = None \<longleftrightarrow> x \<notin> set xs"
  by (induction xs) auto

lemma statements_append [simp]: "statements (xs @ ys) = statements xs @ statements ys"
  by (induction xs rule: statements.induct) auto

lemma map_of_update_self: "map_of (AList.update k v al) k = Some v"
  by (simp add: update_conv')

lemma tm_aba_active:
  "active_transaction tm_aba ''tx_1'' = Some (tx_open\<lparr>savepoints := [''a'', ''b'', ''a'']\<rparr>)"
  by (simp add: tm_aba_def tm_open_def tx_open_def createSavepoint_def query_def emit_def
      accepting_def set_transaction_def active_transaction_def)

lemma tm_aba_other: "active_transaction tm_aba ''tx_9'' = None"
  by (simp add: tm_aba_def tm_open_def tx_open_def createSavepoint_def query_def emit_def
      accepting_def set_transaction_def active_transaction_def)

text \<open>
  C9 (as amended). \<^verbatim>\<open>rollbackToSavepoint(txId, s)\<close> called with an id of no active
  transaction fails with NoActiveTransaction and changes nothing; with a name that is not in
  the transaction's savepoint list it fails with SavepointNotFound and changes nothing. When
  \<open>s\<close> is in the list, \<open>i\<close> is the index of its first occurrence, and the server accepts the
  statement, it sends \<^verbatim>\<open>ROLLBACK TO SAVEPOINT s\<close> and leaves the savepoint list equal to its
  first \<open>i + 1\<close> entries, the rest of the transaction context unchanged.
\<close>

theorem rollbackToSavepoint_prunes:
  "(active_transaction m transactionId = None \<longrightarrow>
      rollbackToSavepoint conn transactionId s m = (Some (noActiveTransaction transactionId), m))
   \<and> (active_transaction m transactionId = Some transaction \<and> s \<notin> set (savepoints transaction) \<longrightarrow>
      rollbackToSavepoint conn transactionId s m = (Some (savepointNotFound s), m))
   \<and> (active_transaction m transactionId = Some transaction
        \<and> i < length (savepoints transaction) \<and> savepoints transaction ! i = s
        \<and> (\<forall>j<i. savepoints transaction ! j \<noteq> s)
        \<and> conn (statements (trace m)) (rollback_to_savepoint_sql s) = None \<longrightarrow>
      (\<exists>m'. rollbackToSavepoint conn transactionId s m = (None, m')
         \<and> statements (trace m') = statements (trace m) @ [rollback_to_savepoint_sql s]
         \<and> active_transaction m' transactionId =
             Some (transaction\<lparr>savepoints := take (i + 1) (savepoints transaction)\<rparr>)))"
proof (intro conjI impI)
  assume "active_transaction m transactionId = None"
  then show "rollbackToSavepoint conn transactionId s m = (Some (noActiveTransaction transactionId), m)"
    by (auto simp: active_transaction_def rollbackToSavepoint_def split: option.splits if_splits)
next
  assume "active_transaction m transactionId = Some transaction \<and> s \<notin> set (savepoints transaction)"
  then have t: "map_of (activeTransactions m) transactionId = Some transaction" "isActive transaction"
    and n: "indexOf (savepoints transaction) s = None"
    by (auto simp: active_transaction_def indexOf_None_iff split: option.splits if_splits)
  show "rollbackToSavepoint conn transactionId s m = (Some (savepointNotFound s), m)"
    by (simp add: rollbackToSavepoint_def t n)
next
  assume a: "active_transaction m transactionId = Some transaction
        \<and> i < length (savepoints transaction) \<and> savepoints transaction ! i = s
        \<and> (\<forall>j<i. savepoints transaction ! j \<noteq> s)
        \<and> conn (statements (trace m)) (rollback_to_savepoint_sql s) = None"
  then have t: "map_of (activeTransactions m) transactionId = Some transaction" "isActive transaction"
    by (auto simp: active_transaction_def split: option.splits if_splits)
  from a have ix: "indexOf (savepoints transaction) s = Some i"
    by (simp add: indexOf_Some_iff)
  from a have ok: "conn (statements (trace m)) (rollback_to_savepoint_sql s) = None" by simp
  show "\<exists>m'. rollbackToSavepoint conn transactionId s m = (None, m')
         \<and> statements (trace m') = statements (trace m) @ [rollback_to_savepoint_sql s]
         \<and> active_transaction m' transactionId =
             Some (transaction\<lparr>savepoints := take (i + 1) (savepoints transaction)\<rparr>)"
    using t
    by (simp add: rollbackToSavepoint_def ix ok query_def emit_def set_transaction_def
        active_transaction_def map_of_update_self)
qed

theorem rollbackToSavepoint_prunes_witness:
  "rollbackToSavepoint accepting ''tx_9'' ''a'' tm_aba = (Some (noActiveTransaction ''tx_9''), tm_aba)
   \<and> rollbackToSavepoint accepting ''tx_1'' ''c'' tm_aba = (Some (savepointNotFound ''c''), tm_aba)
   \<and> (\<exists>m'. rollbackToSavepoint accepting ''tx_1'' ''b'' tm_aba = (None, m')
         \<and> statements (trace m') = statements (trace tm_aba) @ [rollback_to_savepoint_sql ''b'']
         \<and> active_transaction m' ''tx_1'' = Some (tx_open\<lparr>savepoints := [''a'', ''b'']\<rparr>))"
proof -
  let ?t = "tx_open\<lparr>savepoints := [''a'', ''b'', ''a'']\<rparr>"
  have 1: "rollbackToSavepoint accepting ''tx_9'' ''a'' tm_aba = (Some (noActiveTransaction ''tx_9''), tm_aba)"
    using rollbackToSavepoint_prunes[where m = tm_aba and transactionId = "''tx_9''" and s = "''a''"
        and conn = accepting] tm_aba_other by simp
  have 2: "rollbackToSavepoint accepting ''tx_1'' ''c'' tm_aba = (Some (savepointNotFound ''c''), tm_aba)"
    using rollbackToSavepoint_prunes[where m = tm_aba and transactionId = "''tx_1''" and s = "''c''"
        and conn = accepting and transaction = ?t] tm_aba_active by simp
  have 3: "\<exists>m'. rollbackToSavepoint accepting ''tx_1'' ''b'' tm_aba = (None, m')
         \<and> statements (trace m') = statements (trace tm_aba) @ [rollback_to_savepoint_sql ''b'']
         \<and> active_transaction m' ''tx_1'' = Some (tx_open\<lparr>savepoints := [''a'', ''b'']\<rparr>)"
    using rollbackToSavepoint_prunes[where m = tm_aba and transactionId = "''tx_1''" and s = "''b''"
        and conn = accepting and transaction = ?t and i = 1] tm_aba_active
    by (simp add: accepting_def)
  from 1 2 3 show ?thesis by blast
qed


text \<open>
  A savepoint name may be used twice (\<^verbatim>\<open>createSavepoint\<close> does not check). With the list
  a, b, a the name a stands at index 2, and rolling back to a leaves the single entry a, not
  the first three entries: \<^verbatim>\<open>indexOf\<close> finds the first occurrence.
\<close>

theorem rollbackToSavepoint_duplicate_name_counterexample:
  "active_transaction tm_aba ''tx_1'' = Some (tx_open\<lparr>savepoints := [''a'', ''b'', ''a'']\<rparr>)
   \<and> [''a'', ''b'', ''a''] ! 2 = ''a''
   \<and> fst (rollbackToSavepoint accepting ''tx_1'' ''a'' tm_aba) = None
   \<and> map_option savepoints
        (active_transaction (snd (rollbackToSavepoint accepting ''tx_1'' ''a'' tm_aba)) ''tx_1'') = Some [''a'']
   \<and> [''a''] \<noteq> take (2 + 1) [''a'', ''b'', ''a'']"
  by (simp add: tm_aba_def tm_open_def tx_open_def createSavepoint_def query_def emit_def
      accepting_def set_transaction_def active_transaction_def rollbackToSavepoint_def)


section \<open>Deadlock retry\<close>

declare withTransaction_loop.simps [simp del]








text \<open>With \<^verbatim>\<open>retryDelay: 0\<close> the delay is 100, as with no \<^verbatim>\<open>retryDelay\<close> at all.\<close>

lemma retry_delay_zero:
  "slept (trace (snd (withTransaction accepting never deadlocks_twice opts0 tm_idle))) = [100, 200]"
  by code_simp


section \<open>Identity map: ids that are null or undefined\<close>

text \<open>
  \<^verbatim>\<open>set\<close> always reaches \<^verbatim>\<open>createCompositeKey\<close> and rejects such an id.
  \<^verbatim>\<open>get\<close>, \<^verbatim>\<open>has\<close> and \<^verbatim>\<open>delete\<close> reject it once the kind has a map.
\<close>

lemma createCompositeKey_nullish:
  "ident = IdNull \<or> ident = IdUndefined \<Longrightarrow> createCompositeKey entity ident = Inl (invalidId entity ident)"
  by (auto simp: createCompositeKey_def)

lemma createCompositeKey_defined:
  "ident \<noteq> IdNull \<Longrightarrow> ident \<noteq> IdUndefined \<Longrightarrow> \<exists>key. createCompositeKey entity ident = Inr key"
  by (auto simp: createCompositeKey_def)

lemma identityMap_set_rejects_nullish:
  "ident = IdNull \<or> ident = IdUndefined \<Longrightarrow>
     fst (identityMap_set im entity ident instance) = Inl (invalidId entity ident)"
  by (auto simp: identityMap_set_def getOrCreateKeyObject_def getKeyObject_def
      createCompositeKey_nullish Let_def split: option.splits)

lemma identityMap_known_kind_rejects_nullish:
  assumes "ident = IdNull \<or> ident = IdUndefined" "map_of (maps im) entity \<noteq> None"
  shows "identityMap_get im entity ident = Inl (invalidId entity ident)"
    and "identityMap_has im entity ident = Inl (invalidId entity ident)"
    and "fst (identityMap_delete im entity ident) = Inl (invalidId entity ident)"
  using assms
  by (auto simp: identityMap_get_def identityMap_has_def identityMap_delete_def getKeyObject_def
      createCompositeKey_nullish split: option.splits)

text \<open>
  C7. The claim is that \<^verbatim>\<open>get\<close>, \<^verbatim>\<open>set\<close>, \<^verbatim>\<open>has\<close> and \<^verbatim>\<open>delete\<close> fail with InvalidKey on
  an id that is \<^verbatim>\<open>null\<close> or \<^verbatim>\<open>undefined\<close>, whether or not the kind was stored before. On a
  kind that has no map yet, \<^verbatim>\<open>get\<close>, \<^verbatim>\<open>has\<close> and \<^verbatim>\<open>delete\<close> return before the key is built:
  they answer absent, false and false.
\<close>

theorem identityMap_nullish_id_unknown_kind:
  "identityMap_get (new_IdentityMap None) ''User'' IdNull = Inr None
   \<and> identityMap_get (new_IdentityMap None) ''User'' IdUndefined = Inr None
   \<and> identityMap_has (new_IdentityMap None) ''User'' IdNull = Inr False
   \<and> fst (identityMap_delete (new_IdentityMap None) ''User'' IdNull) = Inr False"
  by (simp add: identityMap_get_def identityMap_has_def identityMap_delete_def new_IdentityMap_def)


section \<open>Identity map: one instance per key\<close>

lemma identityMap_set_stores:
  assumes "enableWeakRefs im" "identityMap_set im entity ident a = (Inr r, im1)"
  shows "\<exists>key keyObj entries. createCompositeKey entity ident = Inr key
           \<and> map_of (keyRegistry im1) key = Some keyObj
           \<and> map_of (maps im1) entity = Some entries
           \<and> map_of entries keyObj = Some r \<and> enableWeakRefs im1"
  using assms
  by (auto simp: identityMap_set_def getOrCreateKeyObject_def getKeyObject_def Let_def
      map_of_update_self update_conv'
      split: option.splits sum.splits if_splits prod.splits)

lemma identityMap_set_existing:
  assumes "createCompositeKey entity ident = Inr key"
    "map_of (keyRegistry im) key = Some keyObj"
    "map_of (maps im) entity = Some entries"
    "map_of entries keyObj = Some r"
  shows "identityMap_set im entity ident b = (Inr r, im)"
  using assms
  by (simp add: identityMap_set_def getOrCreateKeyObject_def getKeyObject_def Let_def)

lemma identityMap_get_existing:
  assumes "createCompositeKey entity ident = Inr key"
    "map_of (keyRegistry im) key = Some keyObj"
    "map_of (maps im) entity = Some entries"
    "map_of entries keyObj = Some r"
  shows "identityMap_get im entity ident = Inr (Some r)"
  using assms
  by (simp add: identityMap_get_def getKeyObject_def)

lemma identityMap_set_twice:
  assumes "enableWeakRefs im" "identityMap_set im entity ident a = (Inr r, im1)"
  shows "identityMap_set im1 entity ident b = (Inr r, im1)"
    and "identityMap_get im1 entity ident = Inr (Some r)"
  using identityMap_set_stores[OF assms] identityMap_set_existing identityMap_get_existing
  by blast+

text \<open>
  C1, on the identity map alone. With \<^verbatim>\<open>enableWeakRefs: false\<close> the key object of a
  \<^verbatim>\<open>set\<close> is never registered, so a second \<^verbatim>\<open>set\<close> under the same kind and id makes a new
  key object and returns the second instance, and \<^verbatim>\<open>get\<close> finds nothing. With the registry
  (the default) the second call returns the first instance: \<open>identityMap_set_twice\<close>.
\<close>

theorem identityMap_set_twice_without_key_registry:
  "fst (identityMap_set (new_IdentityMap (Some False)) ''User'' (IdNum 1) 100) = Inr 100
   \<and> fst (identityMap_set (snd (identityMap_set (new_IdentityMap (Some False)) ''User'' (IdNum 1) 100))
            ''User'' (IdNum 1) 200) = Inr 200
   \<and> identityMap_get (snd (identityMap_set (new_IdentityMap (Some False)) ''User'' (IdNum 1) 100))
            ''User'' (IdNum 1) = Inr None"
  by (simp add: identityMap_set_def identityMap_get_def getOrCreateKeyObject_def getKeyObject_def
      createCompositeKey_def new_IdentityMap_def Let_def)


lemma keys_fresh_lookup:
  assumes "keys_fresh im" "map_of (maps im) entity = Some entries"
  shows "map_of entries (nextKeyObject im) = None"
proof -
  from assms(2) have "(entity, entries) \<in> set (maps im)" by (rule map_of_SomeD)
  with assms(1) have "list_all (\<lambda>(k, v). k < nextKeyObject im) entries"
    by (auto simp: keys_fresh_def list_all_iff)
  then have "nextKeyObject im \<notin> fst ` set entries"
    by (auto simp: list_all_iff)
  then show ?thesis by (simp add: map_of_eq_None_iff)
qed

lemma set_update_cases: "x \<in> set (AList.update k v al) \<Longrightarrow> x = (k, v) \<or> x \<in> set al"
  by (induction al) (auto split: if_splits)

lemma set_delete_subset: "x \<in> set (AList.delete k al) \<Longrightarrow> x \<in> set al"
  by (induction al) (auto split: if_splits)

lemma keys_fresh_iff:
  "keys_fresh im \<longleftrightarrow>
     (\<forall>entity es k v. (entity, es) \<in> set (maps im) \<longrightarrow> (k, v) \<in> set es \<longrightarrow> k < nextKeyObject im)
     \<and> (\<forall>key keyObj. (key, keyObj) \<in> set (keyRegistry im) \<longrightarrow> keyObj < nextKeyObject im)"
  unfolding keys_fresh_def list_all_iff by fastforce

lemma getOrCreateKeyObject_fresh:
  assumes "keys_fresh im" "getOrCreateKeyObject im entity ident = Inr (keyObj, im2)"
  shows "keys_fresh im2 \<and> keyObj < nextKeyObject im2 \<and> maps im2 = maps im
           \<and> nextKeyObject im \<le> nextKeyObject im2"
proof (cases "getKeyObject im entity ident")
  case (Inl error)
  with assms(2) show ?thesis by (simp add: getOrCreateKeyObject_def)
next
  case (Inr found)
  then obtain key where key: "createCompositeKey entity ident = Inr key"
    and found: "found = map_of (keyRegistry im) key"
    by (auto simp: getKeyObject_def split: sum.splits)
  show ?thesis
  proof (cases found)
    case (Some existing)
    with Inr assms(2) have "keyObj = existing" "im2 = im"
      by (simp_all add: getOrCreateKeyObject_def)
    moreover from Some found have "(key, existing) \<in> set (keyRegistry im)"
      by (simp add: map_of_SomeD)
    ultimately show ?thesis using assms(1) by (auto simp: keys_fresh_iff)
  next
    case None
    with Inr assms(2) key have k: "keyObj = nextKeyObject im"
      and i: "im2 = (if enableWeakRefs im
                      then im\<lparr>nextKeyObject := nextKeyObject im + 1,
                               keyRegistry := AList.update key (nextKeyObject im) (keyRegistry im)\<rparr>
                      else im\<lparr>nextKeyObject := nextKeyObject im + 1\<rparr>)"
      by (auto simp: getOrCreateKeyObject_def Let_def split: if_splits)
    from assms(1) have "keys_fresh im2"
      unfolding keys_fresh_iff i
      by (auto dest!: set_update_cases) (fastforce simp: less_Suc_eq)+
    with k i show ?thesis by auto
  qed
qed

lemma identityMap_set_unfold:
  "identityMap_set im entity ident a =
     (let entries = (case map_of (maps im) entity of None \<Rightarrow> [] | Some es \<Rightarrow> es);
          im0 = (case map_of (maps im) entity of
                   None \<Rightarrow> im\<lparr>maps := AList.update entity [] (maps im)\<rparr>
                 | Some es \<Rightarrow> im)
      in (case getOrCreateKeyObject im0 entity ident of
            Inl error \<Rightarrow> (Inl error, im0)
          | Inr (keyObj, im2) \<Rightarrow>
              (case map_of entries keyObj of
                 Some existing \<Rightarrow> (Inr existing, im2)
               | None \<Rightarrow>
                   (Inr a,
                    im2\<lparr>maps := AList.update entity (AList.update keyObj a entries) (maps im2)\<rparr>))))"
  by (simp add: identityMap_set_def Let_def split: option.splits)

lemma keys_fresh_set:
  assumes "keys_fresh im" "identityMap_set im entity ident a = (x, im1)"
  shows "keys_fresh im1"
proof -
  define entries where "entries = (case map_of (maps im) entity of None \<Rightarrow> [] | Some es \<Rightarrow> es)"
  define im0 where "im0 = (case map_of (maps im) entity of
                   None \<Rightarrow> im\<lparr>maps := AList.update entity [] (maps im)\<rparr>
                 | Some es \<Rightarrow> im)"
  have f0: "keys_fresh im0"
    using assms(1) unfolding keys_fresh_iff im0_def
    by (auto split: option.splits dest!: set_update_cases)
  have e0: "map_of (maps im0) entity = Some entries"
    unfolding im0_def entries_def
    by (cases "map_of (maps im) entity") (auto simp: map_of_update_self)
  have s: "identityMap_set im entity ident a =
      (case getOrCreateKeyObject im0 entity ident of
            Inl error \<Rightarrow> (Inl error, im0)
          | Inr (keyObj, im2) \<Rightarrow>
              (case map_of entries keyObj of
                 Some existing \<Rightarrow> (Inr existing, im2)
               | None \<Rightarrow>
                   (Inr a,
                    im2\<lparr>maps := AList.update entity (AList.update keyObj a entries) (maps im2)\<rparr>)))"
    unfolding identityMap_set_unfold Let_def im0_def[symmetric] entries_def[symmetric] ..
  show ?thesis
  proof (cases "getOrCreateKeyObject im0 entity ident")
    case (Inl error)
    with assms(2) s have "im1 = im0" by simp
    with f0 show ?thesis by simp
  next
    case (Inr p)
    obtain keyObj im2 where p: "p = (keyObj, im2)" by (cases p)
    from getOrCreateKeyObject_fresh[OF f0 Inr[unfolded p]]
    have f2: "keys_fresh im2" and k2: "keyObj < nextKeyObject im2" and m2: "maps im2 = maps im0"
      and n2: "nextKeyObject im0 \<le> nextKeyObject im2"
      by simp_all
    show ?thesis
    proof (cases "map_of entries keyObj")
      case (Some existing)
      with assms(2) s Inr p have "im1 = im2" by simp
      with f2 show ?thesis by simp
    next
      case None
      with assms(2) s Inr p have i1: "im1 =
          im2\<lparr>maps := AList.update entity (AList.update keyObj a entries) (maps im2)\<rparr>"
        by simp
      from e0 m2 have "(entity, entries) \<in> set (maps im2)" by (simp add: map_of_SomeD)
      with f2 have "\<forall>k v. (k, v) \<in> set entries \<longrightarrow> k < nextKeyObject im2"
        unfolding keys_fresh_iff by blast
      with f2 k2 show ?thesis
        unfolding keys_fresh_iff i1
        by (auto dest!: set_update_cases) blast+
    qed
  qed
qed


lemma replace_in_identityMap_stores:
  assumes fresh: "keys_fresh im" and weak: "enableWeakRefs im"
    and key: "createCompositeKey entity ident = Inr key"
    and reg: "map_of (keyRegistry im) key = Some keyObj"
    and ent: "map_of (maps im) entity = Some entries"
  shows "\<exists>im2. replace_in_identityMap im entity ident t = (Inr t, im2)
           \<and> identityMap_get im2 entity ident = Inr (Some t) \<and> enableWeakRefs im2"
proof -
  define im1 where "im1 = im\<lparr>maps := AList.update entity (AList.delete keyObj entries) (maps im),
                        keyRegistry := AList.delete key (keyRegistry im)\<rparr>"
  have d: "identityMap_delete im entity ident = (Inr (map_of entries keyObj \<noteq> None), im1)"
    by (simp add: identityMap_delete_def getKeyObject_def key reg ent im1_def)
  have e1: "map_of (maps im1) entity = Some (AList.delete keyObj entries)"
    by (simp add: im1_def map_of_update_self)
  have r1: "map_of (keyRegistry im1) key = None"
    by (simp add: im1_def delete_conv')
  have n1: "nextKeyObject im1 = nextKeyObject im" "enableWeakRefs im1"
    using weak by (simp_all add: im1_def)
  have f1: "map_of (AList.delete keyObj entries) (nextKeyObject im) = None"
    using keys_fresh_lookup[OF fresh ent] by (simp add: delete_conv')
  define im2 where "im2 = im1\<lparr>nextKeyObject := nextKeyObject im + 1,
       keyRegistry := AList.update key (nextKeyObject im) (keyRegistry im1),
       maps := AList.update entity (AList.update (nextKeyObject im) t (AList.delete keyObj entries)) (maps im1)\<rparr>"
  have s: "identityMap_set im1 entity ident t = (Inr t, im2)"
    by (simp add: identityMap_set_def getOrCreateKeyObject_def getKeyObject_def key e1 r1 n1 f1
        Let_def im2_def)
  have g: "identityMap_get im2 entity ident = Inr (Some t)"
    by (simp add: identityMap_get_def getKeyObject_def key im2_def map_of_update_self)
  from d s g n1 show ?thesis
    by (simp add: replace_in_identityMap_def im2_def)
qed

lemma uow_create_registers:
  assumes fresh: "keys_fresh (identityMap uow)" and weak: "enableWeakRefs (identityMap uow)"
    and c: "uow_create st uow entity data = (Inr r, st1, uow1)"
  shows "\<exists>metadata ident. map_of (entityMetadata uow1) entity = Some metadata
           \<and> extractId st data metadata = Inr ident
           \<and> identityMap_get (identityMap uow1) entity ident = Inr (Some r)
           \<and> uow_isActive uow1 \<and> entityMetadata uow1 = entityMetadata uow"
proof -
  from c have act: "uow_isActive uow"
    by (auto simp: uow_create_def split: if_splits)
  from c act obtain metadata where md: "map_of (entityMetadata uow) entity = Some metadata"
    by (cases "map_of (entityMetadata uow) entity") (auto simp: uow_create_def)
  from c act md obtain ident where ex: "extractId st data metadata = Inr ident"
    by (cases "extractId st data metadata") (auto simp: uow_create_def)
  show ?thesis
  proof (cases "identityMap_get (identityMap uow) entity ident")
    case (Inl error)
    with c act md ex show ?thesis by (simp add: uow_create_def)
  next
    case (Inr found)
    show ?thesis
    proof (cases found)
      case (Some existing)
      with Inr c act md ex have "r = existing" "uow1 = uow"
        by (simp_all add: uow_create_def)
      with Inr Some act md ex show ?thesis by simp
    next
      case None
      obtain x im1 where s: "identityMap_set (identityMap uow) entity ident data = (x, im1)"
        by fastforce
      show ?thesis
      proof (cases x)
        case (Inl error)
        with None Inr c act md ex s show ?thesis by (simp add: uow_create_def)
      next
        case inst: (Inr stored)
        note st = identityMap_set_stores[OF weak s[unfolded inst]]
        have f1: "keys_fresh im1" by (rule keys_fresh_set[OF fresh s])
        show ?thesis
        proof (cases "enableChangeTracking (uow_options uow)")
          case False
          with None Inr c act md ex s inst have "r = stored" "uow1 = uow\<lparr>identityMap := im1\<rparr>"
            by (simp_all add: uow_create_def)
          with identityMap_set_twice(2)[OF weak s[unfolded inst]] act md ex show ?thesis by simp
        next
          case True
          obtain tracked st' tracker1 where
            t: "track st (changeTracker uow) entity ident stored True = (tracked, st', tracker1)"
            by (metis prod_cases3)
          from st obtain key keyObj entries where
            "createCompositeKey entity ident = Inr key" "map_of (keyRegistry im1) key = Some keyObj"
            "map_of (maps im1) entity = Some entries" "enableWeakRefs im1"
            by blast
          from replace_in_identityMap_stores[OF f1 this(4) this(1) this(2) this(3), of tracked]
          obtain im2 where rp: "replace_in_identityMap im1 entity ident tracked = (Inr tracked, im2)"
            and g2: "identityMap_get im2 entity ident = Inr (Some tracked)"
            by blast
          from True None Inr c act md ex s inst t rp
          have "r = tracked" "uow1 = uow\<lparr>identityMap := im2, changeTracker := tracker1\<rparr>"
            by (simp_all add: uow_create_def)
          with g2 act md ex show ?thesis by simp
        qed
      qed
    qed
  qed
qed

text \<open>
  C1, on the unit of work, whose identity map has the key registry. If \<^verbatim>\<open>create\<close> returns
  an instance \<open>r\<close> for a payload, a second \<^verbatim>\<open>create\<close> of the same kind with a payload of the
  same id returns \<open>r\<close> again and changes neither the store nor the unit of work: the second
  payload is not registered, not tracked, and nothing stored is overwritten.
\<close>

theorem uow_create_twice:
  assumes "keys_fresh (identityMap uow)" "enableWeakRefs (identityMap uow)"
    and "uow_create st uow entity data1 = (Inr r, st1, uow1)"
    and "map_of (entityMetadata uow) entity = Some metadata"
    and "extractId st1 data2 metadata = extractId st data1 metadata"
  shows "uow_create st1 uow1 entity data2 = (Inr r, st1, uow1)"
proof -
  from uow_create_registers[OF assms(1,2,3)] assms(4) obtain ident where
    "map_of (entityMetadata uow1) entity = Some metadata"
    "extractId st data1 metadata = Inr ident"
    "identityMap_get (identityMap uow1) entity ident = Inr (Some r)"
    "uow_isActive uow1"
    by auto
  with assms(5) show ?thesis
    by (simp add: uow_create_def)
qed


lemma uow_users_facts:
  "keys_fresh (identityMap uow_users)" "enableWeakRefs (identityMap uow_users)"
  "enableChangeTracking (uow_options uow_users)"
  "map_of (entityMetadata uow_users) ''User'' = Some user_metadata"
  "identityMap_get (identityMap uow_users) ''User'' (IdNum 1) = Inr None"
  "map_of (trackedEntities (changeTracker uow_users)) (createKey ''User'' (IdNum 1)) = None"
  by code_simp+

lemma two_users_facts:
  "extractId two_users 0 user_metadata = Inr (IdNum 1)"
  "extractId two_users 1 user_metadata = Inr (IdNum 1)"
  "0 < next_ref two_users"
  by code_simp+

lemma triple_collapse: "x = (fst x, fst (snd x), snd (snd x))"
  by simp

theorem uow_create_twice_witness:
  "fst (uow_create two_users uow_users ''User'' 0) = Inr 3
   \<and> uow_create (fst (snd (uow_create two_users uow_users ''User'' 0)))
        (snd (snd (uow_create two_users uow_users ''User'' 0))) ''User'' 1
     = (Inr 3, fst (snd (uow_create two_users uow_users ''User'' 0)),
        snd (snd (uow_create two_users uow_users ''User'' 0)))"
proof -
  have c: "fst (uow_create two_users uow_users ''User'' 0) = Inr 3" by code_simp
  have ce: "uow_create two_users uow_users ''User'' 0 =
      (Inr 3, fst (snd (uow_create two_users uow_users ''User'' 0)),
       snd (snd (uow_create two_users uow_users ''User'' 0)))"
    using triple_collapse[of "uow_create two_users uow_users ''User'' 0"] c by simp
  have e: "extractId (fst (snd (uow_create two_users uow_users ''User'' 0))) 1 user_metadata
        = extractId two_users 0 user_metadata"
    by code_simp
  from uow_create_twice[OF uow_users_facts(1,2) ce uow_users_facts(4) e] c
  show ?thesis by simp
qed


section \<open>What \<^verbatim>\<open>persist\<close> returns and what the identity map keeps\<close>

lemma uow_get_registers:
  assumes fresh: "keys_fresh (identityMap uow)" and weak: "enableWeakRefs (identityMap uow)"
    and c: "uow_get st uow entity ident (Some data) = (Inr (Some r), st1, uow1)"
  shows "identityMap_get (identityMap uow1) entity ident = Inr (Some r)"
proof -
  from c have act: "uow_isActive uow"
    by (auto simp: uow_get_def split: if_splits)
  show ?thesis
  proof (cases "identityMap_get (identityMap uow) entity ident")
    case (Inl error)
    with c act show ?thesis by (simp add: uow_get_def)
  next
    case (Inr found)
    show ?thesis
    proof (cases found)
      case (Some existing)
      with Inr c act have "r = existing" "uow1 = uow"
        by (simp_all add: uow_get_def)
      with Inr Some show ?thesis by simp
    next
      case None
      obtain x im1 where s: "identityMap_set (identityMap uow) entity ident data = (x, im1)"
        by fastforce
      show ?thesis
      proof (cases x)
        case (Inl error)
        with None Inr c act s show ?thesis by (simp add: uow_get_def)
      next
        case inst: (Inr stored)
        note st = identityMap_set_stores[OF weak s[unfolded inst]]
        have f1: "keys_fresh im1" by (rule keys_fresh_set[OF fresh s])
        show ?thesis
        proof (cases "enableChangeTracking (uow_options uow)")
          case False
          with None Inr c act s inst have "r = stored" "uow1 = uow\<lparr>identityMap := im1\<rparr>"
            by (simp_all add: uow_get_def)
          with identityMap_set_twice(2)[OF weak s[unfolded inst]] show ?thesis by simp
        next
          case True
          obtain tracked st' tracker1 where
            t: "track st (changeTracker uow) entity ident stored False = (tracked, st', tracker1)"
            by (metis prod_cases3)
          from st obtain key keyObj entries where
            "createCompositeKey entity ident = Inr key" "map_of (keyRegistry im1) key = Some keyObj"
            "map_of (maps im1) entity = Some entries" "enableWeakRefs im1"
            by blast
          from replace_in_identityMap_stores[OF f1 this(4) this(1) this(2) this(3), of tracked]
          obtain im2 where rp: "replace_in_identityMap im1 entity ident tracked = (Inr tracked, im2)"
            and g2: "identityMap_get im2 entity ident = Inr (Some tracked)"
            by blast
          from True None Inr c act s inst t rp
          have "r = tracked" "uow1 = uow\<lparr>identityMap := im2, changeTracker := tracker1\<rparr>"
            by (simp_all add: uow_get_def)
          with g2 show ?thesis by simp
        qed
      qed
    qed
  qed
qed

lemma identityMap_set_absent:
  assumes fresh: "keys_fresh im" and weak: "enableWeakRefs im"
    and g: "identityMap_get im entity ident = Inr None"
    and s: "identityMap_set im entity ident a = (Inr r, im1)"
  shows "r = a"
proof -
  from s obtain key where key: "createCompositeKey entity ident = Inr key"
    by (cases "createCompositeKey entity ident")
       (auto simp: identityMap_set_def getOrCreateKeyObject_def getKeyObject_def Let_def
          split: option.splits)
  show ?thesis
  proof (cases "map_of (maps im) entity")
    case None
    with s key weak show ?thesis
      by (auto simp: identityMap_set_def getOrCreateKeyObject_def getKeyObject_def Let_def
          split: option.splits)
  next
    case (Some entries)
    show ?thesis
    proof (cases "map_of (keyRegistry im) key")
      case None
      with Some s key weak keys_fresh_lookup[OF fresh Some] show ?thesis
        by (auto simp: identityMap_set_def getOrCreateKeyObject_def getKeyObject_def Let_def
            split: option.splits)
    next
      case reg: (Some keyObj)
      with Some g key have "map_of entries keyObj = None"
        by (simp add: identityMap_get_def getKeyObject_def)
      with reg Some s key show ?thesis
        by (auto simp: identityMap_set_def getOrCreateKeyObject_def getKeyObject_def Let_def)
    qed
  qed
qed

lemma track_untracked:
  assumes "map_of (trackedEntities tracker) (createKey entity ident) = None"
    and "track st tracker entity ident x isNew = (p, st1, tracker1)"
  shows "p = next_ref st + 1 \<and> objects st1 p = Some (HRootProxy x (next_ref st) entity ident)
           \<and> objects st1 (next_ref st) = Some (HSet []) \<and> p \<in> set (entityProxies tracker1)"
  using assms
  by (auto simp: track_def Let_def alloc_def createProxy_def)

text \<open>
  C10 (as amended). With change tracking enabled, \<^verbatim>\<open>persist(kind, instance)\<close> of an instance
  whose key is not yet in the identity map nor in the tracker stores the raw instance in the
  identity map and returns the tracker's proxy of it, a different reference; a following
  \<^verbatim>\<open>get(kind, id)\<close> returns the raw instance. After \<^verbatim>\<open>create\<close>, and after \<^verbatim>\<open>get\<close> with data,
  \<^verbatim>\<open>get(kind, id)\<close> returns the reference the operation returned.
\<close>

theorem persist_keeps_raw_instance:
  assumes fresh: "keys_fresh (identityMap uow)" and weak: "enableWeakRefs (identityMap uow)"
  shows
   "(enableChangeTracking (uow_options uow)
      \<and> persist st uow entity x = (Inr p, st1, uow1)
      \<and> map_of (entityMetadata uow) entity = Some metadata
      \<and> extractId st x metadata = Inr ident
      \<and> identityMap_get (identityMap uow) entity ident = Inr None
      \<and> map_of (trackedEntities (changeTracker uow)) (createKey entity ident) = None
      \<and> x < next_ref st
      \<longrightarrow> identityMap_get (identityMap uow1) entity ident = Inr (Some x)
          \<and> p \<noteq> x
          \<and> p \<in> set (entityProxies (changeTracker uow1))
          \<and> (\<exists>cf. objects st1 p = Some (HRootProxy x cf entity ident)))
    \<and> (uow_create st uow entity d = (Inr c, st2, uow2)
      \<and> map_of (entityMetadata uow) entity = Some metadata
      \<and> extractId st d metadata = Inr ident2
      \<longrightarrow> identityMap_get (identityMap uow2) entity ident2 = Inr (Some c))
    \<and> (uow_get st uow entity ident3 (Some d) = (Inr (Some g), st3, uow3)
      \<longrightarrow> identityMap_get (identityMap uow3) entity ident3 = Inr (Some g))"
proof (intro conjI impI)
  assume a: "enableChangeTracking (uow_options uow)
      \<and> persist st uow entity x = (Inr p, st1, uow1)
      \<and> map_of (entityMetadata uow) entity = Some metadata
      \<and> extractId st x metadata = Inr ident
      \<and> identityMap_get (identityMap uow) entity ident = Inr None
      \<and> map_of (trackedEntities (changeTracker uow)) (createKey entity ident) = None
      \<and> x < next_ref st"
  then have tr: "enableChangeTracking (uow_options uow)"
    and pe: "persist st uow entity x = (Inr p, st1, uow1)"
    and md: "map_of (entityMetadata uow) entity = Some metadata"
    and ex: "extractId st x metadata = Inr ident"
    and ab: "identityMap_get (identityMap uow) entity ident = Inr None"
    by simp_all
  from pe have act: "uow_isActive uow"
    by (auto simp: persist_def split: if_splits)
  obtain r im1 where s: "identityMap_set (identityMap uow) entity ident x = (r, im1)"
    by fastforce
  from pe act md ex s obtain managed where r: "r = Inr managed"
    by (cases r) (auto simp: persist_def)
  from identityMap_set_absent[OF fresh weak ab s[unfolded r]] have m: "managed = x" by simp
  obtain tracked st' tracker1 where
    t: "track st (changeTracker uow) entity ident x True = (tracked, st', tracker1)"
    by (metis prod_cases3)
  from pe tr act md ex s r m t have res: "p = tracked" "st1 = st'"
    "uow1 = uow\<lparr>identityMap := im1, changeTracker := tracker1\<rparr>"
    by (simp_all add: persist_def)
  from a have "map_of (trackedEntities (changeTracker uow)) (createKey entity ident) = None" by simp
  note tu = track_untracked[OF this t]
  from identityMap_set_twice(2)[OF weak s[unfolded r m]] res
  show "identityMap_get (identityMap uow1) entity ident = Inr (Some x)" by simp
  from tu res a show "p \<noteq> x" by auto
  from tu res show "p \<in> set (entityProxies (changeTracker uow1))" by auto
  from tu res show "\<exists>cf. objects st1 p = Some (HRootProxy x cf entity ident)" by auto
next
  assume "uow_create st uow entity d = (Inr c, st2, uow2)
      \<and> map_of (entityMetadata uow) entity = Some metadata
      \<and> extractId st d metadata = Inr ident2"
  with uow_create_registers[OF fresh weak, of st entity d c st2 uow2]
  show "identityMap_get (identityMap uow2) entity ident2 = Inr (Some c)" by auto
next
  assume "uow_get st uow entity ident3 (Some d) = (Inr (Some g), st3, uow3)"
  then show "identityMap_get (identityMap uow3) entity ident3 = Inr (Some g)"
    by (rule uow_get_registers[OF fresh weak])
qed


theorem persist_keeps_raw_instance_witness:
  "identityMap_get (identityMap (snd (snd (persist two_users uow_users ''User'' 0)))) ''User'' (IdNum 1)
     = Inr (Some 0)
   \<and> fst (persist two_users uow_users ''User'' 0) = Inr 3
   \<and> identityMap_get (identityMap (snd (snd (uow_create two_users uow_users ''User'' 0)))) ''User'' (IdNum 1)
     = Inr (Some 3)
   \<and> fst (uow_create two_users uow_users ''User'' 0) = Inr 3
   \<and> identityMap_get (identityMap (snd (snd (uow_get two_users uow_users ''User'' (IdNum 1) (Some 0)))))
        ''User'' (IdNum 1) = Inr (Some 3)
   \<and> fst (uow_get two_users uow_users ''User'' (IdNum 1) (Some 0)) = Inr (Some 3)"
proof -
  have p: "fst (persist two_users uow_users ''User'' 0) = Inr 3" by code_simp
  have c: "fst (uow_create two_users uow_users ''User'' 0) = Inr 3" by code_simp
  have g: "fst (uow_get two_users uow_users ''User'' (IdNum 1) (Some 0)) = Inr (Some 3)" by code_simp
  have pe: "persist two_users uow_users ''User'' 0 =
      (Inr 3, fst (snd (persist two_users uow_users ''User'' 0)),
       snd (snd (persist two_users uow_users ''User'' 0)))"
    using triple_collapse[of "persist two_users uow_users ''User'' 0"] p by simp
  have ce: "uow_create two_users uow_users ''User'' 0 =
      (Inr 3, fst (snd (uow_create two_users uow_users ''User'' 0)),
       snd (snd (uow_create two_users uow_users ''User'' 0)))"
    using triple_collapse[of "uow_create two_users uow_users ''User'' 0"] c by simp
  have ge: "uow_get two_users uow_users ''User'' (IdNum 1) (Some 0) =
      (Inr (Some 3), fst (snd (uow_get two_users uow_users ''User'' (IdNum 1) (Some 0))),
       snd (snd (uow_get two_users uow_users ''User'' (IdNum 1) (Some 0))))"
    using triple_collapse[of "uow_get two_users uow_users ''User'' (IdNum 1) (Some 0)"] g by simp
  note t = persist_keeps_raw_instance[OF uow_users_facts(1,2),
      where st = two_users and entity = "''User''" and x = 0 and p = 3 and metadata = user_metadata
        and ident = "IdNum 1" and d = 0 and c = 3 and ?ident2.0 = "IdNum 1" and ?ident3.0 = "IdNum 1"
        and g = 3
        and ?st1.0 = "fst (snd (persist two_users uow_users ''User'' 0))"
        and ?uow1.0 = "snd (snd (persist two_users uow_users ''User'' 0))"
        and ?st2.0 = "fst (snd (uow_create two_users uow_users ''User'' 0))"
        and ?uow2.0 = "snd (snd (uow_create two_users uow_users ''User'' 0))"
        and ?st3.0 = "fst (snd (uow_get two_users uow_users ''User'' (IdNum 1) (Some 0)))"
        and ?uow3.0 = "snd (snd (uow_get two_users uow_users ''User'' (IdNum 1) (Some 0)))"]
  from t pe ce ge uow_users_facts two_users_facts p c g show ?thesis
    by simp
qed

text \<open>
  The claim as stated, for every persisted entity, fails when the key is already managed.
  After \<^verbatim>\<open>create\<close> of a user with id 1, \<^verbatim>\<open>persist\<close> of another object with id 1 returns the
  proxy \<^verbatim>\<open>create\<close> returned, and \<^verbatim>\<open>get\<close> returns that same reference, not a different one.
\<close>

theorem persist_of_managed_key_counterexample:
  "fst (uow_create two_users uow_users ''User'' 0) = Inr 3
   \<and> fst (persist (fst (snd (uow_create two_users uow_users ''User'' 0)))
             (snd (snd (uow_create two_users uow_users ''User'' 0))) ''User'' 1) = Inr 3
   \<and> identityMap_get
        (identityMap (snd (snd (persist (fst (snd (uow_create two_users uow_users ''User'' 0)))
             (snd (snd (uow_create two_users uow_users ''User'' 0))) ''User'' 1))))
        ''User'' (IdNum 1) = Inr (Some 3)"
  by code_simp




section \<open>Commit: the order of the statements\<close>

lemma kind_fixed [simp]:
  "statement_kind (Statement ''BEGIN'' ps) = Some KBegin"
  "statement_kind (Statement ''COMMIT'' ps) = Some KCommit"
  "statement_kind (Statement ''ROLLBACK'' ps) = Some KRollback"
  by (simp_all add: statement_kind_def)

lemma kind_delete [simp]: "statement_kind (Statement (delete_sql table w) ps) = Some KDelete"
  by (simp add: statement_kind_def delete_sql_def)

lemma kind_update [simp]: "statement_kind (Statement (update_sql table cs w) ps) = Some KUpdate"
  by (simp add: statement_kind_def update_sql_def)

lemma kind_insert [simp]: "statement_kind (Statement (insert_sql table cs phs) ps) = Some KInsert"
  by (simp add: statement_kind_def insert_sql_def)

lemma uow_query_snd [simp]: "snd (uow_query conn sent s) = sent @ [s]"
  by (simp add: uow_query_def)

lemma executeDelete_adds:
  "executeDelete uow conn sent change = (r, sent1) \<Longrightarrow>
     adds KDelete sent sent1 \<and> (r = None \<longrightarrow> sent1 \<noteq> sent)"
  by (auto simp: executeDelete_def adds_def uow_query_def split: option.splits prod.splits)

lemma executeCreate_adds:
  "executeCreate st uow conn sent change = (r, sent1) \<Longrightarrow>
     adds KInsert sent sent1 \<and> (r = None \<longrightarrow> sent1 \<noteq> sent)"
  by (auto simp: executeCreate_def adds_def uow_query_def Let_def
      split: option.splits prod.splits if_splits)

lemma executeUpdate_adds:
  "executeUpdate st uow conn sent change = (r, sent1) \<Longrightarrow> adds KUpdate sent sent1"
  by (auto simp: executeUpdate_def adds_def uow_query_def Let_def
      split: option.splits prod.splits if_splits list.splits)

lemma run_each_adds:
  assumes "\<And>sent c r sent1. execute sent c = (r, sent1) \<Longrightarrow> adds k sent sent1"
    and "run_each execute sent cs = (r, sent1)"
  shows "\<exists>new. sent1 = sent @ new \<and> map statement_kind new = replicate (length new) (Some k)
           \<and> length new \<le> length cs"
  using assms(2)
proof (induction cs arbitrary: sent)
  case Nil
  then show ?case by simp
next
  case (Cons c cs)
  obtain r0 sent0 where e: "execute sent c = (r0, sent0)" by fastforce
  from assms(1)[OF e] obtain new0 where n0: "sent0 = sent @ new0"
    "map statement_kind new0 = replicate (length new0) (Some k)" "length new0 \<le> 1"
    by (auto simp: adds_def)
  show ?case
  proof (cases r0)
    case (Some error)
    with Cons.prems e have "sent1 = sent0" by simp
    with n0 show ?thesis by auto
  next
    case None
    with Cons.prems e have "run_each execute sent0 cs = (r, sent1)" by simp
    from Cons.IH[OF this] obtain new where n: "sent1 = sent0 @ new"
      "map statement_kind new = replicate (length new) (Some k)" "length new \<le> length cs"
      by blast
    have "map statement_kind (new0 @ new) = replicate (length (new0 @ new)) (Some k)"
      using n0(2) n(2) by (simp add: replicate_add)
    with n0 n show ?thesis
      by (intro exI[of _ "new0 @ new"]) auto
  qed
qed

lemma run_each_all:
  assumes "\<And>sent c r sent1. execute sent c = (r, sent1) \<Longrightarrow> adds k sent sent1 \<and> (r = None \<longrightarrow> sent1 \<noteq> sent)"
    and "run_each execute sent cs = (None, sent1)"
  shows "length sent1 = length sent + length cs"
  using assms(2)
proof (induction cs arbitrary: sent)
  case Nil
  then show ?case by simp
next
  case (Cons c cs)
  obtain r0 sent0 where e: "execute sent c = (r0, sent0)" by fastforce
  with Cons.prems have r0: "r0 = None" and rest: "run_each execute sent0 cs = (None, sent1)"
    by (auto split: option.splits)
  from assms(1)[OF e] r0 have "length sent0 = length sent + 1"
    by (auto simp: adds_def)
  with Cons.IH[OF rest] show ?case by simp
qed


lemma commit_statements_shape:
  assumes "commit_statements st uow conn sent changes = (r, sent1)"
  shows "\<exists>ds us cs tl. sent1 = sent @ [Statement ''BEGIN'' []] @ ds @ us @ cs @ tl
           \<and> map statement_kind ds = replicate (length ds) (Some KDelete)
           \<and> map statement_kind us = replicate (length us) (Some KUpdate)
           \<and> map statement_kind cs = replicate (length cs) (Some KInsert)
           \<and> (tl = [] \<or> tl = [Statement ''COMMIT'' []])
           \<and> length us \<le> length (pending Updated changes)
           \<and> (r = None \<longrightarrow> tl = [Statement ''COMMIT'' []]
                 \<and> length ds = length (pending Deleted changes)
                 \<and> length cs = length (pending Created changes))
           \<and> (tl = [] \<longrightarrow> r \<noteq> None)"
proof -
  let ?b = "Statement ''BEGIN'' []"
  let ?c = "Statement ''COMMIT'' []"
  obtain r0 where q0: "uow_query conn sent ?b = (r0, sent @ [?b])"
    by (simp add: uow_query_def)
  show ?thesis
  proof (cases r0)
    case (Some error)
    with assms q0 have "sent1 = sent @ [?b] @ [] @ [] @ [] @ []" "r = Some error"
      by (simp_all add: commit_statements_def)
    then show ?thesis by (intro exI[of _ "[]"]) simp
  next
    case None
    obtain r1 s1 where d: "run_each (executeDelete uow conn) (sent @ [?b]) (pending Deleted changes) = (r1, s1)"
      by fastforce
    from run_each_adds[OF _ d] executeDelete_adds obtain ds where ds: "s1 = (sent @ [?b]) @ ds"
      "map statement_kind ds = replicate (length ds) (Some KDelete)"
      by blast
    show ?thesis
    proof (cases r1)
      case (Some error)
      with assms q0 None d have "sent1 = sent @ [?b] @ ds @ [] @ [] @ []" "r = Some error"
        using ds(1) by (simp_all add: commit_statements_def Let_def pending_def)
      with ds(2) show ?thesis by (intro exI[of _ ds] exI[of _ "[]"]) simp
    next
      case n1: None
      from run_each_all[OF _ d[unfolded n1]] executeDelete_adds ds(1)
      have dl: "length ds = length (pending Deleted changes)" by fastforce
      obtain r2 s2 where u: "run_each (executeUpdate st uow conn) s1 (pending Updated changes) = (r2, s2)"
        by fastforce
      from run_each_adds[OF _ u] executeUpdate_adds obtain us where us: "s2 = s1 @ us"
        "map statement_kind us = replicate (length us) (Some KUpdate)"
        "length us \<le> length (pending Updated changes)"
        by blast
      show ?thesis
      proof (cases r2)
        case (Some error)
        with assms q0 None d n1 u have "sent1 = sent @ [?b] @ ds @ us @ [] @ []" "r = Some error"
          using ds(1) us(1) by (simp_all add: commit_statements_def Let_def pending_def)
        with ds(2) us(2,3) show ?thesis
          by (intro exI[of _ ds] exI[of _ us] exI[of _ "[]"]) simp
      next
        case n2: None
        obtain r3 s3 where c: "run_each (executeCreate st uow conn) s2 (pending Created changes) = (r3, s3)"
          by fastforce
        from run_each_adds[OF _ c] executeCreate_adds obtain cs where cs: "s3 = s2 @ cs"
          "map statement_kind cs = replicate (length cs) (Some KInsert)"
          by blast
        show ?thesis
        proof (cases r3)
          case (Some error)
          with assms q0 None d n1 u n2 c have "sent1 = sent @ [?b] @ ds @ us @ cs @ []" "r = Some error"
            using ds(1) us(1) cs(1) by (simp_all add: commit_statements_def Let_def pending_def)
          with ds(2) us(2,3) cs(2) show ?thesis
            by (intro exI[of _ ds] exI[of _ us] exI[of _ cs] exI[of _ "[]"]) simp
        next
          case n3: None
          from run_each_all[OF _ c[unfolded n3]] executeCreate_adds cs(1)
          have cl: "length cs = length (pending Created changes)" by fastforce
          from assms q0 None d n1 u n2 c n3
          have "sent1 = sent @ [?b] @ ds @ us @ cs @ [?c]"
            using ds(1) us(1) cs(1)
            by (simp add: commit_statements_def Let_def pending_def uow_query_def)
          with ds(2) us(2,3) cs(2) dl cl show ?thesis
            by (intro exI[of _ ds] exI[of _ us] exI[of _ cs] exI[of _ "[?c]"]) simp
        qed
      qed
    qed
  qed
qed


lemma rollback_and_rethrow_snd [simp]:
  "snd (rollback_and_rethrow conn sent error) = sent @ [Statement ''ROLLBACK'' []]"
  by (simp add: rollback_and_rethrow_def uow_query_def split: option.splits)

text \<open>
  C3. A \<^verbatim>\<open>commit\<close> that has pending changes sends, after what was sent before, one
  \<^verbatim>\<open>BEGIN\<close>, then DELETE statements only, then UPDATE statements only, then INSERT statements
  only, and ends the transaction: with \<^verbatim>\<open>COMMIT\<close> when it succeeds, and then there is one
  DELETE for every pending delete and one INSERT for every pending create (an update whose
  changed fields map to no column sends nothing); with \<^verbatim>\<open>ROLLBACK\<close> when it fails, the
  statements sent until then being in that same order.
\<close>

theorem commit_order:
  assumes "uow_isActive uow" and "uow_connection uow = Some conn"
    and "getChanges st (changeTracker uow) \<noteq> []"
    and "commit st sent uow = (res, st1, sent1, uow1)"
  shows "\<exists>new nd nu nc tl.
      sent1 = sent @ new
      \<and> map statement_kind new =
          [Some KBegin] @ replicate nd (Some KDelete) @ replicate nu (Some KUpdate)
            @ replicate nc (Some KInsert) @ tl
      \<and> (tl = [Some KCommit] \<or> tl = [Some KRollback] \<or> tl = [Some KCommit, Some KRollback])
      \<and> nu \<le> length (pending Updated (getChanges st (changeTracker uow)))
      \<and> (case res of
            Inr done \<Rightarrow>
              tl = [Some KCommit]
              \<and> nd = length (pending Deleted (getChanges st (changeTracker uow)))
              \<and> nc = length (pending Created (getChanges st (changeTracker uow)))
              \<and> deleted done = nd \<and> created done = nc
          | Inl error \<Rightarrow> last tl = Some KRollback)"
proof -
  let ?changes = "getChanges st (changeTracker uow)"
  let ?rb = "Statement ''ROLLBACK'' []"
  obtain r s1 where cs: "commit_statements st uow conn sent ?changes = (r, s1)" by fastforce
  from commit_statements_shape[OF cs] obtain ds us cs' tl0 where
    sh: "s1 = sent @ [Statement ''BEGIN'' []] @ ds @ us @ cs' @ tl0"
      "map statement_kind ds = replicate (length ds) (Some KDelete)"
      "map statement_kind us = replicate (length us) (Some KUpdate)"
      "map statement_kind cs' = replicate (length cs') (Some KInsert)"
      "tl0 = [] \<or> tl0 = [Statement ''COMMIT'' []]"
      "length us \<le> length (pending Updated ?changes)"
      "r = None \<longrightarrow> tl0 = [Statement ''COMMIT'' []]
                 \<and> length ds = length (pending Deleted ?changes)
                 \<and> length cs' = length (pending Created ?changes)"
    by blast
  have len: "length ?changes \<noteq> 0" using assms(3) by simp
  show ?thesis
  proof (cases r)
    case (Some error)
    obtain thrown s2 where rr: "rollback_and_rethrow conn s1 error = (thrown, s2)" by fastforce
    then have s2: "s2 = s1 @ [?rb]" using rollback_and_rethrow_snd[of conn s1 error] by simp
    from assms(1,2,4) len cs Some rr have res: "res = Inl thrown" "sent1 = s2"
      by (simp_all add: commit_def Let_def)
    let ?new = "[Statement ''BEGIN'' []] @ ds @ us @ cs' @ tl0 @ [?rb]"
    have 1: "sent1 = sent @ ?new" using res s2 sh(1) by simp
    have 2: "map statement_kind ?new = [Some KBegin] @ replicate (length ds) (Some KDelete)
        @ replicate (length us) (Some KUpdate) @ replicate (length cs') (Some KInsert)
        @ (map statement_kind tl0 @ [Some KRollback])"
      using sh(2,3,4) by simp
    have 3: "map statement_kind tl0 @ [Some KRollback] = [Some KRollback]
        \<or> map statement_kind tl0 @ [Some KRollback] = [Some KCommit, Some KRollback]"
      using sh(5) by auto
    show ?thesis
      apply (rule exI[of _ ?new], rule exI[of _ "length ds"], rule exI[of _ "length us"],
          rule exI[of _ "length cs'"], rule exI[of _ "map statement_kind tl0 @ [Some KRollback]"])
      using 1 2 3 sh(6) res by auto
  next
    case None
    with sh(7) have tl0: "tl0 = [Statement ''COMMIT'' []]"
      and dl: "length ds = length (pending Deleted ?changes)"
      and cl: "length cs' = length (pending Created ?changes)"
      by simp_all
    obtain r2 st2 uow2 where rc: "reset_committed st uow ?changes = (r2, st2, uow2)"
      by (metis prod_cases3)
    show ?thesis
    proof (cases r2)
      case (Some error)
      obtain thrown s2 where rr: "rollback_and_rethrow conn s1 error = (thrown, s2)" by fastforce
      then have s2: "s2 = s1 @ [?rb]" using rollback_and_rethrow_snd[of conn s1 error] by simp
      from assms(1,2,4) len cs None rc Some rr have res: "res = Inl thrown" "sent1 = s2"
        by (simp_all add: commit_def Let_def)
      let ?new = "[Statement ''BEGIN'' []] @ ds @ us @ cs' @ tl0 @ [?rb]"
      have 1: "sent1 = sent @ ?new" using res s2 sh(1) by simp
      have 2: "map statement_kind ?new = [Some KBegin] @ replicate (length ds) (Some KDelete)
        @ replicate (length us) (Some KUpdate) @ replicate (length cs') (Some KInsert)
        @ [Some KCommit, Some KRollback]"
        using sh(2,3,4) tl0 by simp
      show ?thesis
        apply (rule exI[of _ ?new], rule exI[of _ "length ds"], rule exI[of _ "length us"],
            rule exI[of _ "length cs'"], rule exI[of _ "[Some KCommit, Some KRollback]"])
        using 1 2 sh(6) res by auto
    next
      case n2: None
      from assms(1,2,4) len cs None rc n2
      have res: "res = Inr \<lparr>created = length (pending Created ?changes),
                           updated = length (pending Updated ?changes),
                           deleted = length (pending Deleted ?changes)\<rparr>" "sent1 = s1"
        by (simp_all add: commit_def Let_def pending_def)
      let ?new = "[Statement ''BEGIN'' []] @ ds @ us @ cs' @ tl0"
      have 1: "sent1 = sent @ ?new" using res sh(1) by simp
      have 2: "map statement_kind ?new = [Some KBegin] @ replicate (length ds) (Some KDelete)
        @ replicate (length us) (Some KUpdate) @ replicate (length cs') (Some KInsert)
        @ [Some KCommit]"
        using sh(2,3,4) tl0 by simp
      show ?thesis
        apply (rule exI[of _ ?new], rule exI[of _ "length ds"], rule exI[of _ "length us"],
            rule exI[of _ "length cs'"], rule exI[of _ "[Some KCommit]"])
        using 1 2 sh(6) res dl cl by auto
    qed
  qed
qed


lemma three_changes_facts:
  "(case three_changes of (st, uow) \<Rightarrow>
      uow_isActive uow \<and> \<not> Option.is_none (uow_connection uow)
      \<and> map change_type (getChanges st (changeTracker uow)) = [Created, Updated, Deleted])"
  by code_simp

lemma commit_three_accepted:
  "(case commit_three accepts_all of (res, st1, sent1, uow1) \<Rightarrow>
      res = Inr \<lparr>created = 1, updated = 1, deleted = 1\<rparr>
      \<and> sent1 =
          [Statement ''BEGIN'' [],
           Statement (delete_sql ''users'' ''id = $1'') [PId (IdNum 3)],
           Statement (update_sql ''users'' [''name = $1''] ''id = $2'')
             [PValue (VStr ''Updated''), PId (IdNum 1)],
           Statement (insert_sql ''users'' [''id'', ''name'', ''email''] [''$1'', ''$2'', ''$3''])
             [PValue (VNum 2), PValue (VStr ''New''), PValue (VStr ''new@example.com'')],
           Statement ''COMMIT'' []]
      \<and> \<not> uow_hasChanges st1 uow1
      \<and> identityMap_get (identityMap uow1) ''User'' (IdNum 3) = Inr None)"
  by code_simp

lemma commit_three_insert_rejected:
  "(case commit_three rejects_insert of (res, st1, sent1, uow1) \<Rightarrow>
      res = Inl unique_violation
      \<and> map statement_kind sent1 = [Some KBegin, Some KDelete, Some KUpdate, Some KInsert, Some KRollback]
      \<and> map change_type (uow_getChanges st1 uow1) = [Created, Updated, Deleted])"
  by code_simp

lemma quadruple_collapse: "x = (fst x, fst (snd x), fst (snd (snd x)), snd (snd (snd x)))"
  by simp

theorem commit_order_witness:
  "(case commit_three accepts_all of (res, st1, sent1, uow1) \<Rightarrow>
      (\<exists>new nd nu nc tl.
         sent1 = [] @ new
         \<and> map statement_kind new =
             [Some KBegin] @ replicate nd (Some KDelete) @ replicate nu (Some KUpdate)
               @ replicate nc (Some KInsert) @ tl
         \<and> tl = [Some KCommit] \<and> nd = 1 \<and> nc = 1 \<and> nu \<le> 1)
      \<and> map statement_kind sent1 = [Some KBegin, Some KDelete, Some KUpdate, Some KInsert, Some KCommit])"
proof -
  obtain st uow where tc: "three_changes = (st, uow)" by fastforce
  define uow' where "uow' = setConnection uow accepts_all"
  obtain res st1 sent1 uow1 where r: "commit st [] uow' = (res, st1, sent1, uow1)"
    by (metis prod_cases4)
  then have ct: "commit_three accepts_all = (res, st1, sent1, uow1)"
    by (simp add: commit_three_def tc uow'_def)
  from three_changes_facts[unfolded tc] have f: "uow_isActive uow'"
    "map change_type (getChanges st (changeTracker uow')) = [Created, Updated, Deleted]"
    by (simp_all add: uow'_def setConnection_def)
  have c: "uow_connection uow' = Some accepts_all" by (simp add: uow'_def setConnection_def)
  from f(2) have ne: "getChanges st (changeTracker uow') \<noteq> []" by auto
  have p: "length (pending Updated (getChanges st (changeTracker uow'))) = 1"
    "length (pending Deleted (getChanges st (changeTracker uow'))) = 1"
    "length (pending Created (getChanges st (changeTracker uow'))) = 1"
  proof -
    have "length (filter (\<lambda>t. t = k) (map change_type (getChanges st (changeTracker uow'))))
        = length (pending k (getChanges st (changeTracker uow')))" for k
      by (simp add: pending_def filter_map comp_def)
    from this[symmetric] show
      "length (pending Updated (getChanges st (changeTracker uow'))) = 1"
      "length (pending Deleted (getChanges st (changeTracker uow'))) = 1"
      "length (pending Created (getChanges st (changeTracker uow'))) = 1"
      by (simp_all add: f(2))
  qed
  from commit_three_accepted[unfolded ct] have v: "res = Inr \<lparr>created = 1, updated = 1, deleted = 1\<rparr>"
    "map statement_kind sent1 = [Some KBegin, Some KDelete, Some KUpdate, Some KInsert, Some KCommit]"
    by simp_all
  from commit_order[OF f(1) c ne r] v p
  show ?thesis unfolding ct by auto
qed


section \<open>Commit: failure\<close>

text \<open>
  When the batch fails (a statement is rejected, or a change has no metadata), \<^verbatim>\<open>commit\<close>
  sends \<^verbatim>\<open>ROLLBACK\<close> and returns the store and the unit of work as they were: nothing is
  re-baselined, nothing is evicted, and \<^verbatim>\<open>getChanges\<close> reports what it reported before. It
  rejects with the error of the batch when the server accepts the \<^verbatim>\<open>ROLLBACK\<close>, and with the
  error of the \<^verbatim>\<open>ROLLBACK\<close> when it does not.
\<close>

lemma commit_failure:
  assumes "uow_isActive uow" and "uow_connection uow = Some conn"
    and "getChanges st (changeTracker uow) \<noteq> []"
    and "commit_statements st uow conn sent (getChanges st (changeTracker uow)) = (Some error, sent1)"
  shows "commit st sent uow =
           (Inl (case conn sent1 (Statement ''ROLLBACK'' []) of
                   None \<Rightarrow> error | Some rollbackError \<Rightarrow> rollbackError),
            st, sent1 @ [Statement ''ROLLBACK'' []], uow)"
  using assms
  by (simp add: commit_def Let_def rollback_and_rethrow_def uow_query_def split: option.splits)

text \<open>
  C2. The claim is that \<^verbatim>\<open>commit\<close> rejects with the original error. \<^verbatim>\<open>commit\<close> awaits the
  \<^verbatim>\<open>ROLLBACK\<close> inside its \<^verbatim>\<open>catch\<close> without guarding it. On a connection that is lost when
  the INSERT is sent, the INSERT fails with a unique-constraint violation, the \<^verbatim>\<open>ROLLBACK\<close>
  fails with the connection error, and \<^verbatim>\<open>commit\<close> rejects with the connection error.
\<close>

theorem commit_rollback_error_replaces_original:
  "(case commit_three lost_at_insert of (res, st1, sent1, uow1) \<Rightarrow>
      res = Inl connection_lost
      \<and> map statement_kind sent1 = [Some KBegin, Some KDelete, Some KUpdate, Some KInsert, Some KRollback]
      \<and> lost_at_insert (take 3 sent1) (sent1 ! 3) = Some unique_violation
      \<and> lost_at_insert (take 4 sent1) (sent1 ! 4) = Some connection_lost)
   \<and> unique_violation \<noteq> connection_lost"
  by code_simp

section \<open>Change tracking: the traps, case by case\<close>

text \<open>
  From here on the four operations on references are unfolded by the lemmas below, one per
  kind of object, and no longer by the simplifier.
\<close>

declare reflect_get.simps [simp del] reflect_set.simps [simp del]
  reflect_deleteProperty.simps [simp del] isArray.simps [simp del]

lemma reflect_get_absent: "objects st r = None \<Longrightarrow> reflect_get eps st r pr = (VUndefined, st)"
  by (subst reflect_get.simps) simp

lemma reflect_get_object:
  "objects st r = Some (HObject fs) \<Longrightarrow> reflect_get eps st r pr = (own_get (HObject fs) pr, st)"
  by (subst reflect_get.simps) simp

lemma reflect_get_array:
  "objects st r = Some (HArray vs) \<Longrightarrow> reflect_get eps st r pr = (own_get (HArray vs) pr, st)"
  by (subst reflect_get.simps) simp

lemma reflect_get_set:
  "objects st r = Some (HSet xs) \<Longrightarrow> reflect_get eps st r pr = (own_get (HSet xs) pr, st)"
  by (subst reflect_get.simps) simp

lemma reflect_get_root:
  "objects st r = Some (HRootProxy obj cf entity ident) \<Longrightarrow>
   reflect_get eps st r pr =
     (if obj < r then
        (let (v, st1) = reflect_get eps st obj pr
         in (case pr of
               PSym y \<Rightarrow> (v, st1)
             | PStr name \<Rightarrow>
                 (case v of
                    VRef target \<Rightarrow>
                      if target \<notin> set eps
                      then (let (p, st2) = alloc st1 (HNestedProxy target cf name) in (VRef p, st2))
                      else (v, st1)
                  | _ \<Rightarrow> (v, st1))))
      else (VUndefined, st))"
  by (subst reflect_get.simps) simp

lemma reflect_get_nested:
  "objects st r = Some (HNestedProxy obj cf path) \<Longrightarrow>
   reflect_get eps st r pr =
     (if obj < r then
        (let (v, st1) = reflect_get eps st obj pr
         in (case (v, pr) of
               (VFun f, PStr name) \<Rightarrow>
                 if isArray st1 obj \<and> name \<in> set mutatingMethods
                 then (VFun (Mutator cf path obj f), st1)
                 else (v, st1)
             | (VRef target, PStr name) \<Rightarrow>
                 (let (p, st2) = alloc st1 (HNestedProxy target cf (path @ ''.'' @ name))
                  in (VRef p, st2))
             | _ \<Rightarrow> (v, st1)))
      else (VUndefined, st))"
  by (subst reflect_get.simps) simp

lemma reflect_set_absent: "objects st r = None \<Longrightarrow> reflect_set eps st r pr v = st"
  by (subst reflect_set.simps) simp

lemma reflect_set_object:
  "objects st r = Some (HObject fs) \<Longrightarrow> reflect_set eps st r pr v = put st r (own_set (HObject fs) pr v)"
  by (subst reflect_set.simps) simp

lemma reflect_set_array:
  "objects st r = Some (HArray vs) \<Longrightarrow> reflect_set eps st r pr v = put st r (own_set (HArray vs) pr v)"
  by (subst reflect_set.simps) simp

lemma reflect_set_set:
  "objects st r = Some (HSet xs) \<Longrightarrow> reflect_set eps st r pr v = put st r (HSet xs)"
  by (subst reflect_set.simps) (simp add: own_set_def)

lemma reflect_set_symbol:
  "objects st r = Some (HRootProxy obj cf entity ident) \<or> objects st r = Some (HNestedProxy obj cf path) \<Longrightarrow>
   reflect_set eps st r (PSym y) v = (if obj < r then reflect_set eps st obj (PSym y) v else st)"
  by (subst reflect_set.simps) auto

lemma reflect_set_root:
  "objects st r = Some (HRootProxy obj cf entity ident) \<Longrightarrow>
   reflect_set eps st r (PStr F) v =
     (let (oldValue, st1) = reflect_get eps st obj (PStr F);
          st2 = (if \<not> strict_equal oldValue v then set_add st1 cf F else st1)
      in if obj < r then reflect_set eps st2 obj (PStr F) v else st2)"
  by (subst reflect_set.simps) simp

lemma reflect_set_nested:
  "objects st r = Some (HNestedProxy obj cf path) \<Longrightarrow>
   reflect_set eps st r (PStr k) v =
     (let st1 = set_add st cf path
      in if obj < r then reflect_set eps st1 obj (PStr k) v else st1)"
  by (subst reflect_set.simps) simp

lemma reflect_deleteProperty_absent: "objects st r = None \<Longrightarrow> reflect_deleteProperty st r pr = st"
  by (subst reflect_deleteProperty.simps) simp

lemma reflect_deleteProperty_object:
  "objects st r = Some (HObject fs) \<Longrightarrow> reflect_deleteProperty st r pr = put st r (own_delete (HObject fs) pr)"
  by (subst reflect_deleteProperty.simps) simp

lemma reflect_deleteProperty_array:
  "objects st r = Some (HArray vs) \<Longrightarrow> reflect_deleteProperty st r pr = put st r (own_delete (HArray vs) pr)"
  by (subst reflect_deleteProperty.simps) simp

lemma reflect_deleteProperty_set:
  "objects st r = Some (HSet xs) \<Longrightarrow> reflect_deleteProperty st r pr = put st r (HSet xs)"
  by (subst reflect_deleteProperty.simps) (simp add: own_delete_def)

lemma reflect_deleteProperty_symbol:
  "objects st r = Some (HRootProxy obj cf entity ident) \<or> objects st r = Some (HNestedProxy obj cf path) \<Longrightarrow>
   reflect_deleteProperty st r (PSym y) = (if obj < r then reflect_deleteProperty st obj (PSym y) else st)"
  by (subst reflect_deleteProperty.simps) auto

lemma reflect_deleteProperty_root:
  "objects st r = Some (HRootProxy obj cf entity ident) \<Longrightarrow>
   reflect_deleteProperty st r (PStr F) =
     (let st1 = set_add st cf F
      in if obj < r then reflect_deleteProperty st1 obj (PStr F) else st1)"
  by (subst reflect_deleteProperty.simps) simp

lemma reflect_deleteProperty_nested:
  "objects st r = Some (HNestedProxy obj cf path) \<Longrightarrow>
   reflect_deleteProperty st r (PStr k) =
     (let st1 = set_add st cf path
      in if obj < r then reflect_deleteProperty st1 obj (PStr k) else st1)"
  by (subst reflect_deleteProperty.simps) simp

lemma set_add_set:
  "objects st cf = Some (HSet xs) \<Longrightarrow>
   set_add st cf x = (if x \<in> set xs then st else put st cf (HSet (xs @ [x])))"
  by (simp add: set_add_def)

lemma set_values_set: "objects st cf = Some (HSet xs) \<Longrightarrow> set_values st cf = xs"
  by (simp add: set_values_def)

lemma objects_put_self: "objects (put st r h) r = Some h"
  by (simp add: put_def)

lemma objects_put_other: "r \<noteq> c \<Longrightarrow> objects (put st r h) c = objects st c"
  by (simp add: put_def)

lemma next_ref_put: "next_ref (put st r h) = next_ref st"
  by (simp add: put_def)

lemma set_values_put_other: "r \<noteq> cf \<Longrightarrow> set_values (put st r h) cf = set_values st cf"
  by (simp add: set_values_def objects_put_other)

lemma set_values_set_add:
  "objects st cf = Some (HSet xs) \<Longrightarrow> set (set_values (set_add st cf x) cf) = insert x (set xs)"
  by (auto simp: set_add_set set_values_set objects_put_self)

section \<open>Change tracking: no operation takes a path out of a set\<close>

text \<open>A read allocates proxies and changes nothing else.\<close>

lemma extends_refl: "extends st st"
  by (simp add: extends_def)

lemma extends_trans: "extends a b \<Longrightarrow> extends b c \<Longrightarrow> extends a c"
  by (auto simp: extends_def)

lemma extends_alloc: "extends st (snd (alloc st obj))"
  by (simp add: extends_def alloc_def)

lemma extends_set:
  assumes "extends st st2" and "cf < next_ref st" and "objects st cf = Some (HSet xs)"
  shows "objects st2 cf = Some (HSet xs)" and "cf < next_ref st2"
  using assms by (auto simp: extends_def)

lemma reflect_get_extends: "reflect_get eps st r pr = (v, st2) \<Longrightarrow> extends st st2"
proof (induction eps st r pr arbitrary: v st2 rule: reflect_get.induct)
  case (1 eps st r pr)
  show ?case
  proof (cases "objects st r")
    case None
    with "1.prems" show ?thesis by (simp del: reflect_get.simps add: reflect_get_absent extends_refl)
  next
    case (Some h)
    show ?thesis
    proof (cases h)
      case (HObject fs)
      with Some "1.prems" show ?thesis by (simp del: reflect_get.simps add: reflect_get_object extends_refl)
    next
      case (HArray vs)
      with Some "1.prems" show ?thesis by (simp del: reflect_get.simps add: reflect_get_array extends_refl)
    next
      case (HSet xs)
      with Some "1.prems" show ?thesis by (simp del: reflect_get.simps add: reflect_get_set extends_refl)
    next
      case (HRootProxy obj cf entity ident)
      note o = Some[unfolded HRootProxy]
      show ?thesis
      proof (cases "obj < r")
        case False
        with "1.prems"[unfolded reflect_get_root[OF o]] show ?thesis by (simp del: reflect_get.simps add: extends_refl)
      next
        case True
        obtain v1 s1 where g: "reflect_get eps st obj pr = (v1, s1)" by force
        have e1: "extends st s1" using "1.IH"(1)[OF Some HRootProxy True g] .
        have "st2 = s1 \<or> (\<exists>h. st2 = snd (alloc s1 h))"
          using "1.prems"[unfolded reflect_get_root[OF o]] True g
          by (auto simp del: reflect_get.simps split: pkey.splits jsval.splits if_splits prod.splits) (metis snd_conv)+
        then show ?thesis using e1 extends_alloc extends_trans by blast
      qed
    next
      case (HNestedProxy obj cf path)
      note o = Some[unfolded HNestedProxy]
      show ?thesis
      proof (cases "obj < r")
        case False
        with "1.prems"[unfolded reflect_get_nested[OF o]] show ?thesis by (simp del: reflect_get.simps add: extends_refl)
      next
        case True
        obtain v1 s1 where g: "reflect_get eps st obj pr = (v1, s1)" by force
        have e1: "extends st s1" using "1.IH"(2)[OF Some HNestedProxy True g] .
        have "st2 = s1 \<or> (\<exists>h. st2 = snd (alloc s1 h))"
          using "1.prems"[unfolded reflect_get_nested[OF o]] True g
          by (auto simp del: reflect_get.simps split: pkey.splits jsval.splits if_splits prod.splits) (metis snd_conv)+
        then show ?thesis using e1 extends_alloc extends_trans by blast
      qed
    qed
  qed
qed

lemma access_extends: "access eps st r names = Some (q, st2) \<Longrightarrow> extends st st2"
proof (induction names arbitrary: st r)
  case Nil
  then show ?case by (simp add: extends_refl)
next
  case (Cons name names)
  obtain v1 s1 where g: "reflect_get eps st r (PStr name) = (v1, s1)" by force
  with Cons.prems obtain r2 where v1: "v1 = VRef r2" and a: "access eps s1 r2 names = Some (q, st2)"
    by (auto split: jsval.splits)
  from g have "extends st s1" by (rule reflect_get_extends)
  moreover from a have "extends s1 st2" by (rule Cons.IH)
  ultimately show ?case by (rule extends_trans)
qed

text \<open>
  Writes, deletions and calls change plain objects and arrays and add to sets; a set is never
  replaced by anything but itself with one more element.
\<close>

lemma extends_sets_grow: "extends st st2 \<Longrightarrow> sets_grow st st2"
  by (simp add: extends_def sets_grow_def)

lemma sets_grow_refl: "sets_grow st st"
  by (simp add: sets_grow_def)

lemma sets_grow_trans:
  assumes "sets_grow a b" and "sets_grow b c"
  shows "sets_grow a c"
  unfolding sets_grow_def
proof (intro conjI allI impI)
  show "next_ref a \<le> next_ref c" using assms by (simp add: sets_grow_def)
next
  fix x xs
  assume x: "x < next_ref a" and s: "objects a x = Some (HSet xs)"
  from assms(1) x s obtain ys where ys: "objects b x = Some (HSet ys)" "set xs \<subseteq> set ys"
    unfolding sets_grow_def by blast
  from assms(1) x have "x < next_ref b" by (simp add: sets_grow_def)
  with assms(2) ys(1) obtain zs where "objects c x = Some (HSet zs)" "set ys \<subseteq> set zs"
    unfolding sets_grow_def by blast
  with ys(2) show "\<exists>zs. objects c x = Some (HSet zs) \<and> set xs \<subseteq> set zs" by blast
qed

lemma sets_grow_set_add: "sets_grow st (set_add st cf x)"
  by (auto simp: sets_grow_def set_add_def put_def split: option.splits hobj.splits)

lemma sets_grow_put_object: "objects st r = Some (HObject fs) \<Longrightarrow> sets_grow st (put st r h)"
  by (auto simp: sets_grow_def put_def)

lemma sets_grow_put_array: "objects st r = Some (HArray vs) \<Longrightarrow> sets_grow st (put st r h)"
  by (auto simp: sets_grow_def put_def)

lemma sets_grow_put_set: "objects st r = Some (HSet xs) \<Longrightarrow> sets_grow st (put st r (HSet xs))"
  by (auto simp: sets_grow_def put_def)

lemma reflect_set_grows: "sets_grow st (reflect_set eps st r pr v)"
proof (induction eps st r pr v rule: reflect_set.induct)
  case (1 eps st r pr v)
  show ?case
  proof (cases "objects st r")
    case None
    then show ?thesis by (simp add: reflect_set_absent sets_grow_refl)
  next
    case (Some h)
    show ?thesis
    proof (cases h)
      case (HObject fs)
      with Some show ?thesis by (simp add: reflect_set_object sets_grow_put_object)
    next
      case (HArray vs)
      with Some show ?thesis by (simp add: reflect_set_array sets_grow_put_array)
    next
      case (HSet xs)
      with Some show ?thesis by (simp add: reflect_set_set sets_grow_put_set)
    next
      case (HRootProxy obj cf entity ident)
      note o = Some[unfolded HRootProxy]
      show ?thesis
      proof (cases pr)
        case (PSym y)
        from o have eq: "reflect_set eps st r pr v = (if obj < r then reflect_set eps st obj pr v else st)"
          unfolding PSym by (simp add: reflect_set_symbol)
        show ?thesis
          using "1.IH"(2)[OF Some HRootProxy PSym] by (simp add: eq sets_grow_refl)
      next
        case (PStr F)
        obtain old s1 where g: "reflect_get eps st obj pr = (old, s1)" by force
        define s2 where "s2 = (if \<not> strict_equal old v then set_add s1 cf F else s1)"
        have a: "sets_grow st s1" using g by (simp add: reflect_get_extends extends_sets_grow)
        have b: "sets_grow s1 s2" by (simp add: s2_def sets_grow_set_add sets_grow_refl)
        have eq: "reflect_set eps st r pr v = (if obj < r then reflect_set eps s2 obj pr v else s2)"
          using g unfolding PStr s2_def by (simp add: reflect_set_root[OF o])
        have c: "sets_grow s2 (reflect_set eps st r pr v)"
          using "1.IH"(1)[OF Some HRootProxy PStr refl g[symmetric] s2_def]
          by (simp add: eq sets_grow_refl)
        from a b c show ?thesis by (blast intro: sets_grow_trans)
      qed
    next
      case (HNestedProxy obj cf path)
      note o = Some[unfolded HNestedProxy]
      show ?thesis
      proof (cases pr)
        case (PSym y)
        from o have eq: "reflect_set eps st r pr v = (if obj < r then reflect_set eps st obj pr v else st)"
          unfolding PSym by (simp add: reflect_set_symbol)
        show ?thesis
          using "1.IH"(4)[OF Some HNestedProxy PSym] by (simp add: eq sets_grow_refl)
      next
        case (PStr k)
        define s1 where "s1 = set_add st cf path"
        have a: "sets_grow st s1" by (simp add: s1_def sets_grow_set_add)
        have eq: "reflect_set eps st r pr v = (if obj < r then reflect_set eps s1 obj pr v else s1)"
          unfolding PStr s1_def by (simp add: reflect_set_nested[OF o])
        have c: "sets_grow s1 (reflect_set eps st r pr v)"
          using "1.IH"(3)[OF Some HNestedProxy PStr s1_def]
          by (simp add: eq sets_grow_refl)
        from a c show ?thesis by (blast intro: sets_grow_trans)
      qed
    qed
  qed
qed

lemma reflect_deleteProperty_grows: "sets_grow st (reflect_deleteProperty st r pr)"
proof (induction st r pr rule: reflect_deleteProperty.induct)
  case (1 st r pr)
  show ?case
  proof (cases "objects st r")
    case None
    then show ?thesis by (simp add: reflect_deleteProperty_absent sets_grow_refl)
  next
    case (Some h)
    show ?thesis
    proof (cases h)
      case (HObject fs)
      with Some show ?thesis by (simp add: reflect_deleteProperty_object sets_grow_put_object)
    next
      case (HArray vs)
      with Some show ?thesis by (simp add: reflect_deleteProperty_array sets_grow_put_array)
    next
      case (HSet xs)
      with Some show ?thesis by (simp add: reflect_deleteProperty_set sets_grow_put_set)
    next
      case (HRootProxy obj cf entity ident)
      note o = Some[unfolded HRootProxy]
      show ?thesis
      proof (cases pr)
        case (PSym y)
        from o have eq: "reflect_deleteProperty st r pr = (if obj < r then reflect_deleteProperty st obj pr else st)"
          unfolding PSym by (simp add: reflect_deleteProperty_symbol)
        show ?thesis
          using "1.IH"(2)[OF Some HRootProxy PSym] by (simp add: eq sets_grow_refl)
      next
        case (PStr F)
        define s1 where "s1 = set_add st cf F"
        have a: "sets_grow st s1" by (simp add: s1_def sets_grow_set_add)
        have eq: "reflect_deleteProperty st r pr = (if obj < r then reflect_deleteProperty s1 obj pr else s1)"
          unfolding PStr s1_def by (simp add: reflect_deleteProperty_root[OF o])
        have c: "sets_grow s1 (reflect_deleteProperty st r pr)"
          using "1.IH"(1)[OF Some HRootProxy PStr s1_def]
          by (simp add: eq sets_grow_refl)
        from a c show ?thesis by (blast intro: sets_grow_trans)
      qed
    next
      case (HNestedProxy obj cf path)
      note o = Some[unfolded HNestedProxy]
      show ?thesis
      proof (cases pr)
        case (PSym y)
        from o have eq: "reflect_deleteProperty st r pr = (if obj < r then reflect_deleteProperty st obj pr else st)"
          unfolding PSym by (simp add: reflect_deleteProperty_symbol)
        show ?thesis
          using "1.IH"(4)[OF Some HNestedProxy PSym] by (simp add: eq sets_grow_refl)
      next
        case (PStr k)
        define s1 where "s1 = set_add st cf path"
        have a: "sets_grow st s1" by (simp add: s1_def sets_grow_set_add)
        have eq: "reflect_deleteProperty st r pr = (if obj < r then reflect_deleteProperty s1 obj pr else s1)"
          unfolding PStr s1_def by (simp add: reflect_deleteProperty_nested[OF o])
        have c: "sets_grow s1 (reflect_deleteProperty st r pr)"
          using "1.IH"(3)[OF Some HNestedProxy PStr s1_def]
          by (simp add: eq sets_grow_refl)
        from a c show ?thesis by (blast intro: sets_grow_trans)
      qed
    qed
  qed
qed

lemma sets_grow_put_alloc:
  "objects st r = Some (HArray vs) \<Longrightarrow> sets_grow st (snd (alloc (put st r (HArray ws)) h))"
  by (blast intro: sets_grow_trans sets_grow_put_array extends_sets_grow extends_alloc)

lemma call_fn_grows: "sets_grow st (snd (call_fn st f this args))"
proof (induction f arbitrary: st this)
  case (ArrayMethod name)
  show ?case
    by (auto simp: sets_grow_refl sets_grow_put_array sets_grow_put_alloc split_beta
          split: option.splits hobj.splits)
next
  case (Mutator cf path obj f)
  have "sets_grow st (set_add st cf path)" by (rule sets_grow_set_add)
  moreover have "sets_grow (set_add st cf path) (snd (call_fn (set_add st cf path) f obj args))"
    by (rule Mutator.IH)
  ultimately show ?case by (simp add: sets_grow_trans)
qed

lemma marked_set:
  assumes "marked st cf x"
  obtains xs where "objects st cf = Some (HSet xs)" and "x \<in> set xs" and "cf < next_ref st"
proof (cases "objects st cf")
  case None
  with assms show ?thesis by (simp add: marked_def set_values_def)
next
  case (Some h)
  with assms that show ?thesis by (cases h) (simp_all add: marked_def set_values_def)
qed

lemma sets_grow_marked:
  assumes g: "sets_grow a b" and m: "marked a cf x"
  shows "marked b cf x"
proof -
  from m obtain xs where xs: "objects a cf = Some (HSet xs)" "x \<in> set xs" "cf < next_ref a"
    by (rule marked_set)
  from g xs(1,3) obtain ys where ys: "objects b cf = Some (HSet ys)" "set xs \<subseteq> set ys"
    unfolding sets_grow_def by blast
  from g xs(3) have "cf < next_ref b" unfolding sets_grow_def by simp
  with ys xs(2) show ?thesis by (auto simp: marked_def set_values_set)
qed

lemma marked_set_add:
  "objects st cf = Some (HSet xs) \<Longrightarrow> cf < next_ref st \<Longrightarrow> marked (set_add st cf x) cf x"
  by (simp add: marked_def set_add_set set_values_set objects_put_self next_ref_put)

lemma marked_steps:
  assumes "marked st cf x"
  shows "marked (reflect_set eps st r pr u) cf x"
    and "marked (reflect_deleteProperty st r pr) cf x"
    and "marked (snd (call_fn st g this args)) cf x"
    and "marked (snd (reflect_get eps st r pr)) cf x"
proof -
  show "marked (reflect_set eps st r pr u) cf x"
    using reflect_set_grows assms by (rule sets_grow_marked)
  show "marked (reflect_deleteProperty st r pr) cf x"
    using reflect_deleteProperty_grows assms by (rule sets_grow_marked)
  show "marked (snd (call_fn st g this args)) cf x"
    using call_fn_grows assms by (rule sets_grow_marked)
  have "extends st (snd (reflect_get eps st r pr))"
    by (rule reflect_get_extends[of eps st r pr "fst (reflect_get eps st r pr)"]) simp
  then show "marked (snd (reflect_get eps st r pr)) cf x"
    using assms by (blast intro: sets_grow_marked extends_sets_grow)
qed

lemma marked_access:
  assumes "access eps st r names = Some (q, st1)" and "marked st cf x"
  shows "marked st1 cf x"
  using access_extends[OF assms(1)] assms(2) by (blast intro: sets_grow_marked extends_sets_grow)

lemma marked_assign: "marked st cf x \<Longrightarrow> marked (assign eps st r names k u) cf x"
  by (cases "access eps st r names") (auto simp: assign_def marked_access marked_steps(1))

lemma marked_js_delete: "marked st cf x \<Longrightarrow> marked (js_delete eps st r names k) cf x"
  by (cases "access eps st r names") (auto simp: js_delete_def marked_access marked_steps(2))

lemma marked_invoke:
  assumes m: "marked st cf x"
  shows "marked (invoke eps st r names m args) cf x"
proof (cases "access eps st r names")
  case None
  with m show ?thesis by (simp add: invoke_def)
next
  case (Some a)
  obtain q st1 where a: "a = (q, st1)" by (cases a)
  from Some a m have m1: "marked st1 cf x" by (simp add: marked_access)
  obtain v st2 where g: "reflect_get eps st1 q (PStr m) = (v, st2)" by force
  from marked_steps(4)[OF m1, of eps q "PStr m"] g have m2: "marked st2 cf x" by simp
  show ?thesis
  proof (cases v)
    case (VFun f)
    with Some a g marked_steps(3)[OF m2] show ?thesis by (simp add: invoke_def)
  qed (use Some a g m2 in \<open>simp_all add: invoke_def\<close>)
qed

section \<open>Change tracking: proxies stay as they are\<close>

text \<open>
  Writes, deletions and calls replace plain objects and arrays by plain objects and arrays
  and sets by sets; reads add new proxies. No proxy is changed, and no reference that is not
  a proxy becomes one.
\<close>

lemma unused_before_iff: "unused_before st cf \<longleftrightarrow> (\<forall>r < cf. proxy_set st r \<noteq> Some cf)"
  by (auto simp: unused_before_def list_all_iff)

lemma same_proxies_refl: "same_proxies st st"
  by (simp add: same_proxies_def)

lemma same_proxies_trans: "same_proxies a b \<Longrightarrow> same_proxies b c \<Longrightarrow> same_proxies a c"
  unfolding same_proxies_def by (metis (no_types, lifting) le_trans less_le_trans)

lemma extends_same_proxies: "extends st st2 \<Longrightarrow> same_proxies st st2"
  by (simp add: extends_def same_proxies_def proxy_set_def)

lemma same_proxies_set_add: "same_proxies st (set_add st cf x)"
  by (auto simp: same_proxies_def set_add_def put_def proxy_set_def split: option.splits hobj.splits)

lemma same_proxies_put_object:
  "objects st r = Some (HObject fs) \<Longrightarrow> same_proxies st (put st r (own_set (HObject fs) pr v))"
  "objects st r = Some (HObject fs) \<Longrightarrow> same_proxies st (put st r (own_delete (HObject fs) pr))"
  by (auto simp: same_proxies_def put_def proxy_set_def own_set_def own_delete_def)

lemma own_set_array: "\<exists>ws. own_set (HArray vs) pr v = HArray ws"
  by (auto simp: own_set_def split: pkey.splits option.splits jsval.splits)

lemma own_delete_array: "\<exists>ws. own_delete (HArray vs) pr = HArray ws"
  by (auto simp: own_delete_def split: pkey.splits option.splits)

lemma same_proxies_put_array:
  "objects st r = Some (HArray vs) \<Longrightarrow> same_proxies st (put st r (HArray ws))"
  by (auto simp: same_proxies_def put_def proxy_set_def)

lemma same_proxies_put_set:
  "objects st r = Some (HSet xs) \<Longrightarrow> same_proxies st (put st r (HSet ys))"
  by (auto simp: same_proxies_def put_def proxy_set_def)

lemma same_proxies_unused:
  assumes "same_proxies st st2" and "cf < next_ref st" and "unused_before st cf"
  shows "unused_before st2 cf"
  using assms unfolding same_proxies_def unused_before_iff by auto

lemma reflect_set_same_proxies: "same_proxies st (reflect_set eps st r pr v)"
proof (induction eps st r pr v rule: reflect_set.induct)
  case (1 eps st r pr v)
  show ?case
  proof (cases "objects st r")
    case None
    then show ?thesis by (simp add: reflect_set_absent same_proxies_refl)
  next
    case (Some h)
    show ?thesis
    proof (cases h)
      case (HObject fs)
      with Some show ?thesis by (simp add: reflect_set_object same_proxies_put_object)
    next
      case (HArray vs)
      obtain ws where "own_set (HArray vs) pr v = HArray ws" using own_set_array by blast
      with Some HArray show ?thesis by (simp add: reflect_set_array same_proxies_put_array)
    next
      case (HSet xs)
      with Some show ?thesis by (simp add: reflect_set_set same_proxies_put_set)
    next
      case (HRootProxy obj cf entity ident)
      note o = Some[unfolded HRootProxy]
      show ?thesis
      proof (cases pr)
        case (PSym y)
        from o have eq: "reflect_set eps st r pr v = (if obj < r then reflect_set eps st obj pr v else st)"
          unfolding PSym by (simp add: reflect_set_symbol)
        show ?thesis
          using "1.IH"(2)[OF Some HRootProxy PSym] by (simp add: eq same_proxies_refl)
      next
        case (PStr F)
        obtain old s1 where g: "reflect_get eps st obj pr = (old, s1)" by force
        define s2 where "s2 = (if \<not> strict_equal old v then set_add s1 cf F else s1)"
        have a: "same_proxies st s1" using g by (simp add: reflect_get_extends extends_same_proxies)
        have b: "same_proxies s1 s2" by (simp add: s2_def same_proxies_set_add same_proxies_refl)
        have eq: "reflect_set eps st r pr v = (if obj < r then reflect_set eps s2 obj pr v else s2)"
          using g unfolding PStr s2_def by (simp add: reflect_set_root[OF o])
        have c: "same_proxies s2 (reflect_set eps st r pr v)"
          using "1.IH"(1)[OF Some HRootProxy PStr refl g[symmetric] s2_def]
          by (simp add: eq same_proxies_refl)
        from a b c show ?thesis by (blast intro: same_proxies_trans)
      qed
    next
      case (HNestedProxy obj cf path)
      note o = Some[unfolded HNestedProxy]
      show ?thesis
      proof (cases pr)
        case (PSym y)
        from o have eq: "reflect_set eps st r pr v = (if obj < r then reflect_set eps st obj pr v else st)"
          unfolding PSym by (simp add: reflect_set_symbol)
        show ?thesis
          using "1.IH"(4)[OF Some HNestedProxy PSym] by (simp add: eq same_proxies_refl)
      next
        case (PStr k)
        define s1 where "s1 = set_add st cf path"
        have a: "same_proxies st s1" by (simp add: s1_def same_proxies_set_add)
        have eq: "reflect_set eps st r pr v = (if obj < r then reflect_set eps s1 obj pr v else s1)"
          unfolding PStr s1_def by (simp add: reflect_set_nested[OF o])
        have c: "same_proxies s1 (reflect_set eps st r pr v)"
          using "1.IH"(3)[OF Some HNestedProxy PStr s1_def]
          by (simp add: eq same_proxies_refl)
        from a c show ?thesis by (blast intro: same_proxies_trans)
      qed
    qed
  qed
qed

lemma reflect_deleteProperty_same_proxies: "same_proxies st (reflect_deleteProperty st r pr)"
proof (induction st r pr rule: reflect_deleteProperty.induct)
  case (1 st r pr)
  show ?case
  proof (cases "objects st r")
    case None
    then show ?thesis by (simp add: reflect_deleteProperty_absent same_proxies_refl)
  next
    case (Some h)
    show ?thesis
    proof (cases h)
      case (HObject fs)
      with Some show ?thesis by (simp add: reflect_deleteProperty_object same_proxies_put_object)
    next
      case (HArray vs)
      obtain ws where "own_delete (HArray vs) pr = HArray ws" using own_delete_array by blast
      with Some HArray show ?thesis by (simp add: reflect_deleteProperty_array same_proxies_put_array)
    next
      case (HSet xs)
      with Some show ?thesis by (simp add: reflect_deleteProperty_set same_proxies_put_set)
    next
      case (HRootProxy obj cf entity ident)
      note o = Some[unfolded HRootProxy]
      show ?thesis
      proof (cases pr)
        case (PSym y)
        from o have eq: "reflect_deleteProperty st r pr = (if obj < r then reflect_deleteProperty st obj pr else st)"
          unfolding PSym by (simp add: reflect_deleteProperty_symbol)
        show ?thesis
          using "1.IH"(2)[OF Some HRootProxy PSym] by (simp add: eq same_proxies_refl)
      next
        case (PStr F)
        define s1 where "s1 = set_add st cf F"
        have a: "same_proxies st s1" by (simp add: s1_def same_proxies_set_add)
        have eq: "reflect_deleteProperty st r pr = (if obj < r then reflect_deleteProperty s1 obj pr else s1)"
          unfolding PStr s1_def by (simp add: reflect_deleteProperty_root[OF o])
        have c: "same_proxies s1 (reflect_deleteProperty st r pr)"
          using "1.IH"(1)[OF Some HRootProxy PStr s1_def]
          by (simp add: eq same_proxies_refl)
        from a c show ?thesis by (blast intro: same_proxies_trans)
      qed
    next
      case (HNestedProxy obj cf path)
      note o = Some[unfolded HNestedProxy]
      show ?thesis
      proof (cases pr)
        case (PSym y)
        from o have eq: "reflect_deleteProperty st r pr = (if obj < r then reflect_deleteProperty st obj pr else st)"
          unfolding PSym by (simp add: reflect_deleteProperty_symbol)
        show ?thesis
          using "1.IH"(4)[OF Some HNestedProxy PSym] by (simp add: eq same_proxies_refl)
      next
        case (PStr k)
        define s1 where "s1 = set_add st cf path"
        have a: "same_proxies st s1" by (simp add: s1_def same_proxies_set_add)
        have eq: "reflect_deleteProperty st r pr = (if obj < r then reflect_deleteProperty s1 obj pr else s1)"
          unfolding PStr s1_def by (simp add: reflect_deleteProperty_nested[OF o])
        have c: "same_proxies s1 (reflect_deleteProperty st r pr)"
          using "1.IH"(3)[OF Some HNestedProxy PStr s1_def]
          by (simp add: eq same_proxies_refl)
        from a c show ?thesis by (blast intro: same_proxies_trans)
      qed
    qed
  qed
qed

lemma same_proxies_put_alloc:
  "objects st r = Some (HArray vs) \<Longrightarrow> same_proxies st (snd (alloc (put st r (HArray ws)) h))"
  by (blast intro: same_proxies_trans same_proxies_put_array extends_same_proxies extends_alloc)

lemma call_fn_same_proxies: "same_proxies st (snd (call_fn st f this args))"
proof (induction f arbitrary: st this)
  case (ArrayMethod name)
  show ?case
    by (auto simp: same_proxies_refl same_proxies_put_array same_proxies_put_alloc split_beta
          split: option.splits hobj.splits)
next
  case (Mutator cf path obj f)
  have "same_proxies st (set_add st cf path)" by (rule same_proxies_set_add)
  moreover have "same_proxies (set_add st cf path) (snd (call_fn (set_add st cf path) f obj args))"
    by (rule Mutator.IH)
  ultimately show ?case by (simp add: same_proxies_trans)
qed

lemma access_grows: "access eps st r names = Some (q, st1) \<Longrightarrow> sets_grow st st1 \<and> same_proxies st st1"
  by (drule access_extends) (simp add: extends_sets_grow extends_same_proxies)

lemma assign_evolves: "sets_grow st (assign eps st r names k v) \<and> same_proxies st (assign eps st r names k v)"
proof (cases "access eps st r names")
  case None
  then show ?thesis by (simp add: assign_def sets_grow_refl same_proxies_refl)
next
  case (Some a)
  obtain q st1 where a: "a = (q, st1)" by (cases a)
  from Some a have "sets_grow st st1" "same_proxies st st1" by (simp_all add: access_grows)
  moreover have "sets_grow st1 (reflect_set eps st1 q (PStr k) v)" by (rule reflect_set_grows)
  moreover have "same_proxies st1 (reflect_set eps st1 q (PStr k) v)" by (rule reflect_set_same_proxies)
  ultimately show ?thesis
    using Some a by (auto simp: assign_def intro: sets_grow_trans same_proxies_trans)
qed

lemma js_delete_evolves:
  "sets_grow st (js_delete eps st r names k) \<and> same_proxies st (js_delete eps st r names k)"
proof (cases "access eps st r names")
  case None
  then show ?thesis by (simp add: js_delete_def sets_grow_refl same_proxies_refl)
next
  case (Some a)
  obtain q st1 where a: "a = (q, st1)" by (cases a)
  from Some a have "sets_grow st st1" "same_proxies st st1" by (simp_all add: access_grows)
  moreover have "sets_grow st1 (reflect_deleteProperty st1 q (PStr k))"
    by (rule reflect_deleteProperty_grows)
  moreover have "same_proxies st1 (reflect_deleteProperty st1 q (PStr k))"
    by (rule reflect_deleteProperty_same_proxies)
  ultimately show ?thesis
    using Some a by (auto simp: js_delete_def intro: sets_grow_trans same_proxies_trans)
qed

lemma invoke_evolves:
  "sets_grow st (invoke eps st r names m args) \<and> same_proxies st (invoke eps st r names m args)"
proof (cases "access eps st r names")
  case None
  then show ?thesis by (simp add: invoke_def sets_grow_refl same_proxies_refl)
next
  case (Some a)
  obtain q st1 where a: "a = (q, st1)" by (cases a)
  from Some a have 1: "sets_grow st st1" "same_proxies st st1" by (simp_all add: access_grows)
  obtain v st2 where g: "reflect_get eps st1 q (PStr m) = (v, st2)" by force
  from g have "extends st1 st2" by (rule reflect_get_extends)
  then have 2: "sets_grow st1 st2" "same_proxies st1 st2"
    by (simp_all add: extends_sets_grow extends_same_proxies)
  from 1 2 have 3: "sets_grow st st2" "same_proxies st st2"
    by (blast intro: sets_grow_trans same_proxies_trans)+
  show ?thesis
  proof (cases v)
    case (VFun f)
    have "sets_grow st2 (snd (call_fn st2 f q args))" "same_proxies st2 (snd (call_fn st2 f q args))"
      by (rule call_fn_grows, rule call_fn_same_proxies)
    with 3 have "sets_grow st (snd (call_fn st2 f q args))" "same_proxies st (snd (call_fn st2 f q args))"
      by (blast intro: sets_grow_trans same_proxies_trans)+
    with Some a g VFun show ?thesis by (simp add: invoke_def)
  qed (use Some a g 3 in \<open>simp_all add: invoke_def\<close>)
qed

text \<open>
  What \<^verbatim>\<open>track\<close> returns for data that exists is a tracked instance, given that no proxy of the
  store adds to a set that does not exist yet; and it stays one through every assignment,
  deletion and call.
\<close>

lemma tracked_instance_parts:
  assumes "tracked_instance st p obj cf entity ident"
  obtains "objects st p = Some (HRootProxy obj cf entity ident)"
    and "objects st cf = Some (HSet (set_values st cf))"
    and "cf < next_ref st" and "obj < cf" and "cf < p" and "p < next_ref st"
    and "unused_before st cf"
  using assms
  by (auto simp: tracked_instance_def set_values_def split: option.splits hobj.splits)

lemma track_gives_tracked_instance:
  assumes "map_of (trackedEntities tracker) (createKey entity ident) = None"
    and "track st tracker entity ident data isNew = (p, st1, tracker1)"
    and "data < next_ref st" and "unused_before st (next_ref st)"
  shows "tracked_instance st1 p data (next_ref st) entity ident"
proof -
  from assms(1,2) have p: "p = next_ref st + 1"
    and st1: "st1 = snd (alloc (snd (alloc st (HSet []))) (HRootProxy data (next_ref st) entity ident))"
    by (auto simp: track_def Let_def alloc_def createProxy_def)
  have "proxy_set st1 r = proxy_set st r" if "r < next_ref st" for r
    using that by (simp add: st1 alloc_def proxy_set_def)
  with assms(4) have "unused_before st1 (next_ref st)" by (simp add: unused_before_iff)
  then show ?thesis using assms(3) by (simp add: tracked_instance_def p st1 alloc_def)
qed

lemma tracked_instance_kept:
  assumes t: "tracked_instance st p obj cf entity ident"
    and g: "sets_grow st st2" and k: "same_proxies st st2"
  shows "tracked_instance st2 p obj cf entity ident"
proof -
  from t have p: "objects st p = Some (HRootProxy obj cf entity ident)"
    and s: "objects st cf = Some (HSet (set_values st cf))"
    and b: "cf < next_ref st" and o: "obj < cf" and c: "cf < p" and n: "p < next_ref st"
    and u: "unused_before st cf"
    by (auto elim: tracked_instance_parts)
  from p have "proxy_set st p \<noteq> None" by (simp add: proxy_set_def)
  with k n have p2: "objects st2 p = objects st p" and n2: "p < next_ref st2"
    by (auto simp: same_proxies_def)
  from g b s obtain ys where ys: "objects st2 cf = Some (HSet ys)"
    unfolding sets_grow_def by blast
  have u2: "unused_before st2 cf" using k b u by (rule same_proxies_unused)
  show ?thesis
    using p p2 n2 ys u2 o c by (simp add: tracked_instance_def)
qed

lemma tracked_instance_preserved:
  assumes "tracked_instance st p obj cf entity ident"
  shows "tracked_instance (assign eps st r names k v) p obj cf entity ident"
    and "tracked_instance (js_delete eps st r names k) p obj cf entity ident"
    and "tracked_instance (invoke eps st r names m args) p obj cf entity ident"
  using assms assign_evolves js_delete_evolves invoke_evolves
  by (blast intro: tracked_instance_kept)+

text \<open>
  A write to an object older than a set that no older proxy adds to leaves the set as it is.
\<close>

lemma objects_set_add_other: "c \<noteq> cf \<Longrightarrow> objects (set_add st c x) cf = objects st cf"
  by (auto simp: set_add_def put_def split: option.splits hobj.splits)

lemma next_ref_set_add: "next_ref (set_add st c x) = next_ref st"
  by (auto simp: set_add_def put_def split: option.splits hobj.splits)

lemma unused_before_proxy:
  "unused_before st cf \<Longrightarrow> r < cf \<Longrightarrow> proxy_set st r = Some c \<Longrightarrow> c \<noteq> cf"
  by (auto simp: unused_before_iff)

lemma reflect_set_below:
  "unused_before st cf \<Longrightarrow> r < cf \<Longrightarrow> cf < next_ref st \<Longrightarrow>
     objects (reflect_set eps st r pr v) cf = objects st cf"
proof (induction eps st r pr v rule: reflect_set.induct)
  case (1 eps st r pr v)
  note u = "1.prems"(1) and lt = "1.prems"(2) and b = "1.prems"(3)
  from lt have ne: "r \<noteq> cf" by simp
  show ?case
  proof (cases "objects st r")
    case None
    then show ?thesis by (simp add: reflect_set_absent)
  next
    case (Some h)
    show ?thesis
    proof (cases h)
      case (HObject fs)
      with Some ne show ?thesis by (simp add: reflect_set_object objects_put_other)
    next
      case (HArray vs)
      with Some ne show ?thesis by (simp add: reflect_set_array objects_put_other)
    next
      case (HSet xs)
      with Some ne show ?thesis by (simp add: reflect_set_set objects_put_other)
    next
      case (HRootProxy obj c entity ident)
      note o = Some[unfolded HRootProxy]
      from o have "proxy_set st r = Some c" by (simp add: proxy_set_def)
      with u lt have c: "c \<noteq> cf" by (rule unused_before_proxy)
      show ?thesis
      proof (cases pr)
        case (PSym y)
        from o have eq: "reflect_set eps st r pr v = (if obj < r then reflect_set eps st obj pr v else st)"
          unfolding PSym by (simp add: reflect_set_symbol)
        show ?thesis
          using "1.IH"(2)[OF Some HRootProxy PSym _ u _ b] lt by (simp add: eq)
      next
        case (PStr F)
        obtain old s1 where g: "reflect_get eps st obj pr = (old, s1)" by force
        define s2 where "s2 = (if \<not> strict_equal old v then set_add s1 c F else s1)"
        from g have e: "extends st s1" by (rule reflect_get_extends)
        have o1: "objects s1 cf = objects st cf" and b1: "cf < next_ref s1"
          using e b by (auto simp: extends_def)
        have u1: "unused_before s1 cf"
          using extends_same_proxies[OF e] b u by (rule same_proxies_unused)
        have o2: "objects s2 cf = objects s1 cf" using c by (simp add: s2_def objects_set_add_other)
        have b2: "cf < next_ref s2" using b1 by (simp add: s2_def next_ref_set_add)
        have u2: "unused_before s2 cf"
        proof -
          have "same_proxies s1 s2" by (simp add: s2_def same_proxies_set_add same_proxies_refl)
          then show ?thesis using b1 u1 by (rule same_proxies_unused)
        qed
        have eq: "reflect_set eps st r pr v = (if obj < r then reflect_set eps s2 obj pr v else s2)"
          using g unfolding PStr s2_def by (simp add: reflect_set_root[OF o])
        have "objects (reflect_set eps st r pr v) cf = objects s2 cf"
          using "1.IH"(1)[OF Some HRootProxy PStr refl g[symmetric] s2_def _ u2 _ b2] lt
          by (simp add: eq)
        with o2 o1 show ?thesis by simp
      qed
    next
      case (HNestedProxy obj c path)
      note o = Some[unfolded HNestedProxy]
      from o have "proxy_set st r = Some c" by (simp add: proxy_set_def)
      with u lt have c: "c \<noteq> cf" by (rule unused_before_proxy)
      show ?thesis
      proof (cases pr)
        case (PSym y)
        from o have eq: "reflect_set eps st r pr v = (if obj < r then reflect_set eps st obj pr v else st)"
          unfolding PSym by (simp add: reflect_set_symbol)
        show ?thesis
          using "1.IH"(4)[OF Some HNestedProxy PSym _ u _ b] lt by (simp add: eq)
      next
        case (PStr k)
        define s1 where "s1 = set_add st c path"
        have o1: "objects s1 cf = objects st cf" using c by (simp add: s1_def objects_set_add_other)
        have b1: "cf < next_ref s1" using b by (simp add: s1_def next_ref_set_add)
        have u1: "unused_before s1 cf"
        proof -
          have "same_proxies st s1" by (simp add: s1_def same_proxies_set_add)
          then show ?thesis using b u by (rule same_proxies_unused)
        qed
        have eq: "reflect_set eps st r pr v = (if obj < r then reflect_set eps s1 obj pr v else s1)"
          unfolding PStr s1_def by (simp add: reflect_set_nested[OF o])
        have "objects (reflect_set eps st r pr v) cf = objects s1 cf"
          using "1.IH"(3)[OF Some HNestedProxy PStr s1_def _ u1 _ b1] lt
          by (simp add: eq)
        with o1 show ?thesis by simp
      qed
    qed
  qed
qed

section \<open>Change tracking: the path of a nested proxy\<close>

text \<open>
  A proxy returned by a read through a nested proxy carries the path of that proxy, a dot and
  the property read; a proxy returned by a read through the root proxy carries the property
  read. So the proxy at the end of a chain of reads carries the chain, joined by dots.
\<close>

lemma foldl_separator:
  "foldl (\<lambda>p name. p @ sep @ name) P names = P @ concat (map (\<lambda>z. sep @ z) names)"
  by (induction names arbitrary: P) simp_all

lemma dotted_join: "dotted a names = join ''.'' (a # names)"
  unfolding dotted_def join_def list.case by (rule foldl_separator)

lemma nested_hop:
  assumes q: "objects st q = Some (HNestedProxy t cf P)"
    and hop: "reflect_get eps st q (PStr b) = (VRef q2, st1)"
  shows "\<exists>t2. objects st1 q2 = Some (HNestedProxy t2 cf (P @ ''.'' @ b))"
proof -
  obtain v1 s1 where g: "reflect_get eps st t (PStr b) = (v1, s1)" by force
  from hop[unfolded reflect_get_nested[OF q]] g show ?thesis
    by (auto simp: alloc_def split: if_splits jsval.splits)
qed

lemma wrapped_entity_image: "wrapped_entity eps v \<longleftrightarrow> v \<in> VRef ` set eps"
  by (auto simp: wrapped_entity_def split: jsval.splits)

lemma root_hop:
  assumes p: "objects st p = Some (HRootProxy obj cf entity ident)"
    and hop: "reflect_get eps st p (PStr a) = (VRef q2, st1)"
    and first: "fst (reflect_get eps st obj (PStr a)) \<notin> VRef ` set eps"
  shows "\<exists>t2. objects st1 q2 = Some (HNestedProxy t2 cf a)"
proof -
  obtain v1 s1 where g: "reflect_get eps st obj (PStr a) = (v1, s1)" by force
  from hop[unfolded reflect_get_root[OF p]] g first show ?thesis
    by (auto simp: alloc_def split: if_splits jsval.splits)
qed

lemma access_nested:
  assumes "objects st q = Some (HNestedProxy t cf P)"
    and "access eps st q names = Some (q2, st2)"
  shows "\<exists>t2. objects st2 q2 = Some (HNestedProxy t2 cf (dotted P names))"
  using assms
proof (induction names arbitrary: st q t P)
  case Nil
  then show ?case by (simp add: dotted_def)
next
  case (Cons name names)
  obtain v1 s1 where g: "reflect_get eps st q (PStr name) = (v1, s1)" by force
  with Cons.prems(2) obtain r2 where v1: "v1 = VRef r2" and a: "access eps s1 r2 names = Some (q2, st2)"
    by (auto split: jsval.splits)
  from nested_hop[OF Cons.prems(1) g[unfolded v1]]
  obtain t2 where "objects s1 r2 = Some (HNestedProxy t2 cf (P @ ''.'' @ name))" by blast
  from Cons.IH[OF this a] show ?case by (simp add: dotted_def)
qed

lemma access_root:
  assumes p: "objects st p = Some (HRootProxy obj cf entity ident)"
    and first: "fst (reflect_get eps st obj (PStr a)) \<notin> VRef ` set eps"
    and acc: "access eps st p (a # names) = Some (q, st2)"
  shows "\<exists>t. objects st2 q = Some (HNestedProxy t cf (join ''.'' (a # names)))"
proof -
  obtain v1 s1 where g: "reflect_get eps st p (PStr a) = (v1, s1)" by force
  with acc obtain r2 where v1: "v1 = VRef r2" and a: "access eps s1 r2 names = Some (q, st2)"
    by (auto split: jsval.splits)
  from root_hop[OF p g[unfolded v1] first]
  obtain t2 where "objects s1 r2 = Some (HNestedProxy t2 cf a)" by blast
  from access_nested[OF this a] show ?thesis by (simp add: dotted_join)
qed

lemma reaches_access:
  assumes "reaches eps st p names"
  obtains q st1 where "access eps st p names = Some (q, st1)"
  using assms by (auto simp: reaches_def Option.is_none_def)

lemma current_root:
  "objects st p = Some (HRootProxy obj cf entity ident) \<Longrightarrow>
   current eps st p [] F = fst (reflect_get eps st obj (PStr F))"
  by (simp add: current_def proxy_target_def)

lemma chain_proxy:
  assumes p: "objects st p = Some (HRootProxy obj cf entity ident)"
    and s: "objects st cf = Some (HSet xs)" and b: "cf < next_ref st"
    and first: "\<not> wrapped_entity eps (current eps st p [] a)"
    and acc: "access eps st p (a # names) = Some (q, st1)"
  obtains t where "objects st1 q = Some (HNestedProxy t cf (join ''.'' (a # names)))"
    and "objects st1 cf = Some (HSet xs)" and "cf < next_ref st1"
proof -
  have "current eps st p [] a = fst (reflect_get eps st obj (PStr a))"
    using p by (simp add: current_def proxy_target_def)
  with first have f: "fst (reflect_get eps st obj (PStr a)) \<notin> VRef ` set eps"
    by (simp add: wrapped_entity_image)
  from access_root[OF p f acc] obtain t
    where t: "objects st1 q = Some (HNestedProxy t cf (join ''.'' (a # names)))" by blast
  from acc have "extends st st1" by (rule access_extends)
  from extends_set[OF this b s] t that show ?thesis by blast
qed

section \<open>Change tracking: what a write marks\<close>

lemma plain_cases:
  assumes "plain st r"
  obtains fs where "objects st r = Some (HObject fs)" | vs where "objects st r = Some (HArray vs)"
  using assms by (auto simp: plain_def split: option.splits hobj.splits)

lemma plain_not_set: "plain st r \<Longrightarrow> objects st cf = Some (HSet xs) \<Longrightarrow> r \<noteq> cf"
  by (auto simp: plain_def)

lemma plain_set_add: "plain st r \<Longrightarrow> plain (set_add st cf x) r"
  by (auto simp: plain_def set_add_def put_def split: option.splits hobj.splits)

lemma reflect_get_plain: "plain st r \<Longrightarrow> snd (reflect_get eps st r pr) = st"
  by (erule plain_cases) (simp_all add: reflect_get_object reflect_get_array)

lemma reflect_set_plain:
  "plain st r \<Longrightarrow> r \<noteq> cf \<Longrightarrow> set_values (reflect_set eps st r pr v) cf = set_values st cf"
  by (erule plain_cases) (simp_all add: reflect_set_object reflect_set_array set_values_put_other)

lemma reflect_deleteProperty_plain:
  "plain st r \<Longrightarrow> r \<noteq> cf \<Longrightarrow> set_values (reflect_deleteProperty st r pr) cf = set_values st cf"
  by (erule plain_cases)
     (simp_all add: reflect_deleteProperty_object reflect_deleteProperty_array set_values_put_other)

lemma assign_root: "assign eps st p [] F v = reflect_set eps st p (PStr F) v"
  by (simp add: assign_def)

lemma root_write_marks:
  assumes p: "objects st p = Some (HRootProxy obj cf entity ident)"
    and s: "objects st cf = Some (HSet xs)" and b: "cf < next_ref st"
    and d: "\<not> strict_equal (fst (reflect_get eps st obj (PStr F))) v"
  shows "marked (reflect_set eps st p (PStr F) v) cf F"
proof -
  obtain old s1 where g: "reflect_get eps st obj (PStr F) = (old, s1)" by force
  from g have e: "extends st s1" by (rule reflect_get_extends)
  note s1 = extends_set[OF e b s]
  define s2 where "s2 = set_add s1 cf F"
  have m: "marked s2 cf F" unfolding s2_def using s1 by (rule marked_set_add)
  have eq: "reflect_set eps st p (PStr F) v = (if obj < p then reflect_set eps s2 obj (PStr F) v else s2)"
    using g d by (simp add: reflect_set_root[OF p] s2_def)
  have "sets_grow s2 (reflect_set eps st p (PStr F) v)"
    by (simp add: eq reflect_set_grows sets_grow_refl)
  from sets_grow_marked[OF this m] show ?thesis .
qed

lemma root_write_unchanged:
  assumes t: "tracked_instance st p obj cf entity ident"
    and d: "strict_equal (fst (reflect_get eps st obj (PStr F))) v"
  shows "set_values (reflect_set eps st p (PStr F) v) cf = set_values st cf"
proof -
  from t have p: "objects st p = Some (HRootProxy obj cf entity ident)"
    and b: "cf < next_ref st" and o: "obj < cf" and u: "unused_before st cf"
    by (auto elim: tracked_instance_parts)
  obtain old s1 where g: "reflect_get eps st obj (PStr F) = (old, s1)" by force
  from g have e: "extends st s1" by (rule reflect_get_extends)
  have o1: "objects s1 cf = objects st cf" and b1: "cf < next_ref s1"
    using e b by (auto simp: extends_def)
  have u1: "unused_before s1 cf"
    using extends_same_proxies[OF e] b u by (rule same_proxies_unused)
  have eq: "reflect_set eps st p (PStr F) v = (if obj < p then reflect_set eps s1 obj (PStr F) v else s1)"
    using g d by (simp add: reflect_set_root[OF p])
  have "objects (reflect_set eps s1 obj (PStr F) v) cf = objects s1 cf"
    using u1 o b1 by (rule reflect_set_below)
  with eq o1 show ?thesis by (simp add: set_values_def)
qed

lemma nested_write_marked:
  assumes q: "objects st q = Some (HNestedProxy t cf P)"
    and s: "objects st cf = Some (HSet xs)" and b: "cf < next_ref st"
  shows "marked (reflect_set eps st q (PStr k) v) cf P"
proof -
  define s1 where "s1 = set_add st cf P"
  have m: "marked s1 cf P" unfolding s1_def using s b by (rule marked_set_add)
  have eq: "reflect_set eps st q (PStr k) v = (if t < q then reflect_set eps s1 t (PStr k) v else s1)"
    by (simp add: reflect_set_nested[OF q] s1_def)
  have "sets_grow s1 (reflect_set eps st q (PStr k) v)"
    by (simp add: eq reflect_set_grows sets_grow_refl)
  from sets_grow_marked[OF this m] show ?thesis .
qed

lemma nested_delete_marked:
  assumes q: "objects st q = Some (HNestedProxy t cf P)"
    and s: "objects st cf = Some (HSet xs)" and b: "cf < next_ref st"
  shows "marked (reflect_deleteProperty st q (PStr k)) cf P"
proof -
  define s1 where "s1 = set_add st cf P"
  have m: "marked s1 cf P" unfolding s1_def using s b by (rule marked_set_add)
  have eq: "reflect_deleteProperty st q (PStr k) = (if t < q then reflect_deleteProperty s1 t (PStr k) else s1)"
    by (simp add: reflect_deleteProperty_nested[OF q] s1_def)
  have "sets_grow s1 (reflect_deleteProperty st q (PStr k))"
    by (simp add: eq reflect_deleteProperty_grows sets_grow_refl)
  from sets_grow_marked[OF this m] show ?thesis .
qed

lemma nested_write_exact:
  assumes q: "objects st q = Some (HNestedProxy t cf P)"
    and s: "objects st cf = Some (HSet xs)"
    and t: "plain st t"
  shows "set (set_values (reflect_set eps st q (PStr k) v) cf) = insert P (set xs)"
    and "set (set_values (reflect_deleteProperty st q (PStr k)) cf) = insert P (set xs)"
proof -
  define s1 where "s1 = set_add st cf P"
  have ne: "t \<noteq> cf" using t s by (rule plain_not_set)
  have t1: "plain s1 t" unfolding s1_def using t by (rule plain_set_add)
  have v: "set (set_values s1 cf) = insert P (set xs)"
    unfolding s1_def using s by (rule set_values_set_add)
  have "reflect_set eps st q (PStr k) v = (if t < q then reflect_set eps s1 t (PStr k) v else s1)"
    by (simp add: reflect_set_nested[OF q] s1_def)
  then show "set (set_values (reflect_set eps st q (PStr k) v) cf) = insert P (set xs)"
    using v reflect_set_plain[OF t1 ne] by simp
  have "reflect_deleteProperty st q (PStr k) = (if t < q then reflect_deleteProperty s1 t (PStr k) else s1)"
    by (simp add: reflect_deleteProperty_nested[OF q] s1_def)
  then show "set (set_values (reflect_deleteProperty st q (PStr k)) cf) = insert P (set xs)"
    using v reflect_deleteProperty_plain[OF t1 ne] by simp
qed

lemma own_get_mutating:
  "m \<in> set mutatingMethods \<Longrightarrow> own_get (HArray vs) (PStr m) = VFun (ArrayMethod m)"
  unfolding mutatingMethods_def
  by (auto simp: own_get_def array_index_def is_digit_def array_methods_def mutatingMethods_def)

lemma isArray_method:
  "isArray st r \<Longrightarrow> m \<in> set mutatingMethods \<Longrightarrow> \<exists>g. reflect_get eps st r (PStr m) = (VFun g, st)"
proof (induction st r rule: isArray.induct)
  case (1 st r)
  show ?case
  proof (cases "objects st r")
    case None
    with "1.prems"(1) show ?thesis by (simp add: isArray.simps)
  next
    case (Some h)
    show ?thesis
    proof (cases h)
      case (HObject fs)
      with Some "1.prems"(1) show ?thesis by (simp add: isArray.simps)
    next
      case (HArray vs)
      with Some "1.prems"(2) show ?thesis by (simp add: reflect_get_array own_get_mutating)
    next
      case (HSet xs)
      with Some "1.prems"(1) show ?thesis by (simp add: isArray.simps)
    next
      case (HRootProxy obj cf entity ident)
      note o = Some[unfolded HRootProxy]
      from "1.prems"(1) o have lt: "obj < r" and arr: "isArray st obj"
        by (auto simp: isArray.simps[of st r] split: if_splits)
      from "1.IH"(1)[OF Some HRootProxy lt arr "1.prems"(2)]
      obtain g where "reflect_get eps st obj (PStr m) = (VFun g, st)" by blast
      then show ?thesis by (simp add: reflect_get_root[OF o] lt)
    next
      case (HNestedProxy obj cf path)
      note o = Some[unfolded HNestedProxy]
      from "1.prems"(1) o have lt: "obj < r" and arr: "isArray st obj"
        by (auto simp: isArray.simps[of st r] split: if_splits)
      from "1.IH"(2)[OF Some HNestedProxy lt arr "1.prems"(2)]
      obtain g where "reflect_get eps st obj (PStr m) = (VFun g, st)" by blast
      then show ?thesis by (simp add: reflect_get_nested[OF o] lt)
    qed
  qed
qed

lemma nested_method_marked:
  assumes q: "objects st q = Some (HNestedProxy t cf P)"
    and s: "objects st cf = Some (HSet xs)" and b: "cf < next_ref st"
    and arr: "isArray st q" and m: "m \<in> set mutatingMethods"
  shows "\<exists>g. reflect_get eps st q (PStr m) = (VFun g, st) \<and>
             marked (snd (call_fn st g this args)) cf P"
proof -
  from arr q have lt: "t < q" and arr_t: "isArray st t"
    by (auto simp: isArray.simps[of st q] split: if_splits)
  from isArray_method[OF arr_t m] obtain f where f: "reflect_get eps st t (PStr m) = (VFun f, st)"
    by blast
  have g: "reflect_get eps st q (PStr m) = (VFun (Mutator cf P t f), st)"
    using f lt arr_t m by (simp add: reflect_get_nested[OF q])
  define s1 where "s1 = set_add st cf P"
  have mk: "marked s1 cf P" unfolding s1_def using s b by (rule marked_set_add)
  have "sets_grow s1 (snd (call_fn st (Mutator cf P t f) this args))"
    by (simp add: s1_def call_fn_grows)
  from sets_grow_marked[OF this mk] g show ?thesis by blast
qed

lemma map_of_delete_self: "map_of (AList.delete k xs) k = None"
  by (induction xs) auto

lemma getChangedFields_reset:
  "getChangedFields (fst (resetChanges st tracker entity ident)) (snd (resetChanges st tracker entity ident))
     entity ident = []"
proof (cases "map_of (trackedEntities tracker) (createKey entity ident)")
  case None
  then show ?thesis by (simp add: getChangedFields_def resetChanges_def)
next
  case (Some tracked)
  show ?thesis
  proof (cases "te_isDeleted tracked")
    case True
    with Some show ?thesis
      by (simp add: getChangedFields_def resetChanges_def Let_def map_of_delete_self)
  next
    case False
    with Some show ?thesis
      by (auto simp: getChangedFields_def resetChanges_def Let_def update_conv' set_clear_def
            set_values_def put_def split: option.splits hobj.splits)
  qed
qed

lemma getChangedFields_untrack: "getChangedFields st (untrack tracker entity ident) entity ident = []"
  by (cases "map_of (trackedEntities tracker) (createKey entity ident)")
     (simp_all add: getChangedFields_def untrack_def Let_def map_of_delete_self)

lemma getChangedFields_clear: "getChangedFields st (tracker_clear tracker) entity ident = []"
  by (simp add: getChangedFields_def tracker_clear_def)

lemma tracked_john_facts:
  "objects john_store john = Some (HRootProxy 3 4 ''User'' (IdNum 1))"
  "objects john_store 4 = Some (HSet [])"
  "4 < next_ref john_store"
  by code_simp+

text \<open>
  C4 (as amended). For every tracked instance: writing to a top-level field F of the wrapped
  instance a value different from the field's current value adds F to the changed fields;
  writing the field's current value leaves the changed fields as they are; writing a value
  different from the current one to a property of an object or array reached through the
  wrapped instance by reading the properties \<open>a, n\<^sub>1, \<dots>, n\<^sub>k\<close> in turn adds the owning path
  \<open>a.n\<^sub>1.\<dots>.n\<^sub>k\<close>, without the property written, provided \<open>a\<close> does not hold the wrapped
  instance of a tracked entity (the root proxy hands that out as it is, and what is written
  below it is recorded for that entity). Once a path is in the changed fields, no
  assignment, deletion or method call on any object, wrapped or not, takes it out, so writing
  back the original value does not. After \<^verbatim>\<open>resetChanges\<close>, \<^verbatim>\<open>untrack\<close> or \<^verbatim>\<open>clear\<close> the
  entity has no changed fields.
\<close>

theorem change_detection_monotonic:
  assumes t: "tracked_instance st p obj cf entity ident"
  shows "(\<not> strict_equal (current eps st p [] F) v \<longrightarrow> marked (assign eps st p [] F v) cf F)
       \<and> (strict_equal (current eps st p [] F2) v2 \<longrightarrow>
            set_values (assign eps st p [] F2 v2) cf = set_values st cf)
       \<and> (\<not> wrapped_entity eps (current eps st p [] a) \<and> reaches eps st p (a # names) \<and>
          \<not> strict_equal (current eps st p (a # names) k) w \<longrightarrow>
            marked (assign eps st p (a # names) k w) cf (join ''.'' (a # names)))
       \<and> (marked st cf x \<longrightarrow>
            marked (assign eps st r path k2 u) cf x
          \<and> marked (js_delete eps st r path k2) cf x
          \<and> marked (invoke eps st r path m args) cf x)
       \<and> getChangedFields (fst (resetChanges st tracker entity ident))
            (snd (resetChanges st tracker entity ident)) entity ident = []
       \<and> getChangedFields st (untrack tracker entity ident) entity ident = []
       \<and> getChangedFields st (tracker_clear tracker) entity ident = []"
proof -
  from t have p: "objects st p = Some (HRootProxy obj cf entity ident)"
    and s: "objects st cf = Some (HSet (set_values st cf))"
    and b: "cf < next_ref st"
    by (auto elim: tracked_instance_parts)
  have c1: "marked (assign eps st p [] F v) cf F" if "\<not> strict_equal (current eps st p [] F) v"
    using that unfolding assign_root current_root[OF p] by (rule root_write_marks[OF p s b])
  have c2: "set_values (assign eps st p [] F2 v2) cf = set_values st cf"
    if "strict_equal (current eps st p [] F2) v2"
    using that unfolding assign_root current_root[OF p] by (rule root_write_unchanged[OF t])
  have c3: "marked (assign eps st p (a # names) k w) cf (join ''.'' (a # names))"
    if first: "\<not> wrapped_entity eps (current eps st p [] a)" and r: "reaches eps st p (a # names)"
  proof -
    from r obtain q st1 where acc: "access eps st p (a # names) = Some (q, st1)"
      by (rule reaches_access)
    from p s b first acc obtain t
      where q: "objects st1 q = Some (HNestedProxy t cf (join ''.'' (a # names)))"
        and s1: "objects st1 cf = Some (HSet (set_values st cf))" and b1: "cf < next_ref st1"
      by (rule chain_proxy)
    have "assign eps st p (a # names) k w = reflect_set eps st1 q (PStr k) w"
      unfolding assign_def acc by simp
    with nested_write_marked[OF q s1 b1, of eps k w] show ?thesis by simp
  qed
  note c4 = marked_assign marked_js_delete marked_invoke
  note c5 = getChangedFields_reset getChangedFields_untrack getChangedFields_clear
  show ?thesis
    by (intro conjI impI) (simp_all add: c1 c2 c3 c4 c5)
qed

text \<open>
  The theorem at the user of the nested-tracking tests, after \<^verbatim>\<open>wrapped.name = 'Jane'\<close>:
  writing back \<^verbatim>\<open>'John'\<close> keeps \<^verbatim>\<open>name\<close> marked, writing the e-mail address it already has
  adds nothing, \<^verbatim>\<open>wrapped.address.city = 'New York'\<close> marks \<^verbatim>\<open>address\<close>.
\<close>

theorem change_detection_monotonic_witness:
  "tracked_instance john_renamed john 3 4 ''User'' (IdNum 1)
   \<and> set_values john_renamed 4 = [''name'']
   \<and> \<not> strict_equal (current (entityProxies john_tracker) john_renamed john [] ''name'') (VStr ''John'')
   \<and> marked (assign (entityProxies john_tracker) john_renamed john [] ''name'' (VStr ''John'')) 4 ''name''
   \<and> strict_equal (current (entityProxies john_tracker) john_renamed john [] ''email'') (VStr ''john@example.com'')
   \<and> set_values (assign (entityProxies john_tracker) john_renamed john [] ''email'' (VStr ''john@example.com'')) 4
       = set_values john_renamed 4
   \<and> \<not> wrapped_entity (entityProxies john_tracker)
         (current (entityProxies john_tracker) john_renamed john [] ''address'')
   \<and> reaches (entityProxies john_tracker) john_renamed john [''address'']
   \<and> \<not> strict_equal (current (entityProxies john_tracker) john_renamed john [''address''] ''city'')
         (VStr ''New York'')
   \<and> marked (assign (entityProxies john_tracker) john_renamed john [''address''] ''city'' (VStr ''New York''))
         4 (join ''.'' [''address''])
   \<and> marked john_renamed 4 ''name''
   \<and> marked (assign (entityProxies john_tracker) john_renamed john [] ''name'' (VStr ''John'')) 4 ''name''
   \<and> marked (js_delete (entityProxies john_tracker) john_renamed john [] ''name'') 4 ''name''
   \<and> marked (invoke (entityProxies john_tracker) john_renamed john [''profile'', ''tags''] ''sort'' []) 4 ''name''
   \<and> getChangedFields (fst (resetChanges john_renamed john_tracker ''User'' (IdNum 1)))
        (snd (resetChanges john_renamed john_tracker ''User'' (IdNum 1))) ''User'' (IdNum 1) = []"
proof -
  have h0: "tracked_instance john_renamed john 3 4 ''User'' (IdNum 1)" by code_simp
  have h00: "set_values john_renamed 4 = [''name'']" by code_simp
  have h1: "\<not> strict_equal (current (entityProxies john_tracker) john_renamed john [] ''name'') (VStr ''John'')"
    by code_simp
  have h3: "strict_equal (current (entityProxies john_tracker) john_renamed john [] ''email'')
              (VStr ''john@example.com'')"
    by code_simp
  have h4: "\<not> wrapped_entity (entityProxies john_tracker)
         (current (entityProxies john_tracker) john_renamed john [] ''address'')"
    by code_simp
  have h5: "reaches (entityProxies john_tracker) john_renamed john [''address'']" by code_simp
  have h6: "\<not> strict_equal (current (entityProxies john_tracker) john_renamed john [''address''] ''city'')
         (VStr ''New York'')"
    by code_simp
  have h7: "marked john_renamed 4 ''name''" by code_simp
  note t = change_detection_monotonic[OF h0,
      where eps = "entityProxies john_tracker" and F = "''name''" and v = "VStr ''John''"
        and ?F2.0 = "''email''" and ?v2.0 = "VStr ''john@example.com''"
        and a = "''address''" and names = "[]" and k = "''city''" and w = "VStr ''New York''"
        and x = "''name''" and r = john and path = "[]" and ?k2.0 = "''name''" and u = "VStr ''John''"
        and tracker = john_tracker]
  note t2 = change_detection_monotonic[OF h0,
      where eps = "entityProxies john_tracker"
        and x = "''name''" and r = john and path = "[''profile'', ''tags'']" and m = "''sort''" and args = "[]"]
  from t t2 h0 h00 h1 h3 h4 h5 h6 h7 show ?thesis by blast
qed

text \<open>
  The claim as stated fails for a write below the top level. After
  \<^verbatim>\<open>wrapped.address.city = 'New York'\<close>, a value different from the current one, the changed
  fields are \<^verbatim>\<open>address\<close> alone; the path written, \<^verbatim>\<open>address.city\<close>, is not among them. And
  where \<^verbatim>\<open>friend\<close> holds the wrapped instance of another tracked user,
  \<^verbatim>\<open>wrapped.friend.name = 'Z'\<close>, again a value different from the current one, adds nothing
  to the changed fields of the user written through: the write is recorded for the friend.
\<close>

theorem address_city_counterexample:
  "\<not> strict_equal (current (entityProxies john_tracker) john_store john [''address''] ''city'')
       (VStr ''New York'')
   \<and> getChangedFields
       (assign (entityProxies john_tracker) john_store john [''address''] ''city'' (VStr ''New York''))
       john_tracker ''User'' (IdNum 1) = [''address'']
   \<and> ''address.city'' \<notin> set (getChangedFields
       (assign (entityProxies john_tracker) john_store john [''address''] ''city'' (VStr ''New York''))
       john_tracker ''User'' (IdNum 1))
   \<and> wrapped_entity (entityProxies friends_tracker)
       (current (entityProxies friends_tracker) friends_store ann [] ''friend'')
   \<and> \<not> strict_equal (current (entityProxies friends_tracker) friends_store ann [''friend''] ''name'')
       (VStr ''Z'')
   \<and> getChangedFields
       (assign (entityProxies friends_tracker) friends_store ann [''friend''] ''name'' (VStr ''Z''))
       friends_tracker ''User'' (IdNum 1) = []
   \<and> getChangedFields
       (assign (entityProxies friends_tracker) friends_store ann [''friend''] ''name'' (VStr ''Z''))
       friends_tracker ''User'' (IdNum 2) = [''name'']"
  by code_simp

text \<open>
  The nested \<^verbatim>\<open>set\<close> trap does not compare the value with the current one, as the root trap
  does: \<^verbatim>\<open>wrapped.address.city = 'Boston'\<close>, the value the city already has, marks
  \<^verbatim>\<open>address\<close> all the same.
\<close>

lemma nested_write_of_current_value:
  "strict_equal (current (entityProxies john_tracker) john_store john [''address''] ''city'')
     (VStr ''Boston'')
   \<and> getChangedFields
       (assign (entityProxies john_tracker) john_store john [''address''] ''city'' (VStr ''Boston''))
       john_tracker ''User'' (IdNum 1) = [''address'']"
  by code_simp

text \<open>
  C6 (as amended). For a write or a deletion of a property of an object or array reached
  through the wrapped instance of a tracked entity by reading the properties
  \<open>a, n\<^sub>1, \<dots>, n\<^sub>k\<close> in turn, provided \<open>a\<close> does not hold the wrapped instance of a tracked
  entity (the root proxy hands that out as it is, and what is written below it is recorded
  for that entity), the path added to the changed fields is \<open>a.n\<^sub>1.\<dots>.n\<^sub>k\<close>, the dotted chain
  of the properties read to reach the owning object, without the property written or
  deleted: it is marked, and when the owning object is a plain object or array it is the
  only path added. A mutating array method called on an array reached that way marks the
  array's path, the same chain.
\<close>

theorem nested_path_granularity:
  assumes p: "objects st p = Some (HRootProxy obj cf entity ident)"
    and s: "objects st cf = Some (HSet xs)" and b: "cf < next_ref st"
    and first: "\<not> wrapped_entity eps (current eps st p [] a)"
    and r: "reaches eps st p (a # names)"
  shows "marked (assign eps st p (a # names) k v) cf (join ''.'' (a # names))
       \<and> marked (js_delete eps st p (a # names) k) cf (join ''.'' (a # names))
       \<and> (reaches_array eps st p (a # names) \<and> m \<in> set mutatingMethods \<longrightarrow>
            marked (invoke eps st p (a # names) m args) cf (join ''.'' (a # names)))
       \<and> (reaches_plain eps st p (a # names) \<longrightarrow>
            set (set_values (assign eps st p (a # names) k v) cf) = insert (join ''.'' (a # names)) (set xs)
          \<and> set (set_values (js_delete eps st p (a # names) k) cf) = insert (join ''.'' (a # names)) (set xs))"
proof -
  from r obtain q st1 where acc: "access eps st p (a # names) = Some (q, st1)"
    by (rule reaches_access)
  from p s b first acc obtain t
    where q: "objects st1 q = Some (HNestedProxy t cf (join ''.'' (a # names)))"
      and s1: "objects st1 cf = Some (HSet xs)" and b1: "cf < next_ref st1"
    by (rule chain_proxy)
  have w: "assign eps st p (a # names) k v = reflect_set eps st1 q (PStr k) v"
    unfolding assign_def acc by simp
  have d: "js_delete eps st p (a # names) k = reflect_deleteProperty st1 q (PStr k)"
    unfolding js_delete_def acc by simp
  have c1: "marked (assign eps st p (a # names) k v) cf (join ''.'' (a # names))"
    unfolding w using q s1 b1 by (rule nested_write_marked)
  have c2: "marked (js_delete eps st p (a # names) k) cf (join ''.'' (a # names))"
    unfolding d using q s1 b1 by (rule nested_delete_marked)
  have c3: "marked (invoke eps st p (a # names) m args) cf (join ''.'' (a # names))"
    if "reaches_array eps st p (a # names)" and m: "m \<in> set mutatingMethods"
  proof -
    from that(1) have arr: "isArray st1 q" unfolding reaches_array_def acc by simp
    from nested_method_marked[OF q s1 b1 arr m, of eps q args]
    obtain g where g: "reflect_get eps st1 q (PStr m) = (VFun g, st1)"
      and mk: "marked (snd (call_fn st1 g q args)) cf (join ''.'' (a # names))" by blast
    have "invoke eps st p (a # names) m args = snd (call_fn st1 g q args)"
      unfolding invoke_def acc using g by simp
    with mk show ?thesis by simp
  qed
  have c4: "set (set_values (assign eps st p (a # names) k v) cf) = insert (join ''.'' (a # names)) (set xs)
          \<and> set (set_values (js_delete eps st p (a # names) k) cf) = insert (join ''.'' (a # names)) (set xs)"
    if "reaches_plain eps st p (a # names)"
  proof -
    from that q have t: "plain st1 t" unfolding reaches_plain_def acc by (simp add: proxy_target_def)
    from nested_write_exact[OF q s1 t] show ?thesis unfolding w d by simp
  qed
  from c1 c2 c3 c4 show ?thesis by blast
qed

text \<open>
  The theorem at \<^verbatim>\<open>wrapped.profile.tags\<close> of the same user: \<^verbatim>\<open>wrapped.profile.tags[0] = 'first'\<close>,
  \<^verbatim>\<open>delete wrapped.profile.tags[0]\<close> and \<^verbatim>\<open>wrapped.profile.tags.push('tag3')\<close> each mark
  \<^verbatim>\<open>profile.tags\<close>.
\<close>

theorem nested_path_granularity_witness:
  "\<not> wrapped_entity (entityProxies john_tracker)
       (current (entityProxies john_tracker) john_store john [] ''profile'')
   \<and> reaches (entityProxies john_tracker) john_store john [''profile'', ''tags'']
   \<and> reaches_array (entityProxies john_tracker) john_store john [''profile'', ''tags'']
   \<and> ''push'' \<in> set mutatingMethods
   \<and> reaches_plain (entityProxies john_tracker) john_store john [''profile'', ''tags'']
   \<and> join ''.'' [''profile'', ''tags''] = ''profile.tags''
   \<and> marked (assign (entityProxies john_tracker) john_store john [''profile'', ''tags''] ''0'' (VStr ''first''))
         4 (join ''.'' [''profile'', ''tags''])
   \<and> marked (js_delete (entityProxies john_tracker) john_store john [''profile'', ''tags''] ''0'')
         4 (join ''.'' [''profile'', ''tags''])
   \<and> marked (invoke (entityProxies john_tracker) john_store john [''profile'', ''tags''] ''push'' [VStr ''tag3''])
         4 (join ''.'' [''profile'', ''tags''])
   \<and> set (set_values (assign (entityProxies john_tracker) john_store john [''profile'', ''tags''] ''0'' (VStr ''first'')) 4)
       = insert (join ''.'' [''profile'', ''tags'']) (set [])
   \<and> set (set_values (js_delete (entityProxies john_tracker) john_store john [''profile'', ''tags''] ''0'') 4)
       = insert (join ''.'' [''profile'', ''tags'']) (set [])"
proof -
  have h1: "\<not> wrapped_entity (entityProxies john_tracker)
       (current (entityProxies john_tracker) john_store john [] ''profile'')" by code_simp
  have h2: "reaches (entityProxies john_tracker) john_store john [''profile'', ''tags'']" by code_simp
  have h3: "reaches_array (entityProxies john_tracker) john_store john [''profile'', ''tags'']" by code_simp
  have h4: "''push'' \<in> set mutatingMethods" by code_simp
  have h5: "reaches_plain (entityProxies john_tracker) john_store john [''profile'', ''tags'']" by code_simp
  have h6: "join ''.'' [''profile'', ''tags''] = ''profile.tags''" by code_simp
  note t = nested_path_granularity[OF tracked_john_facts h1 h2,
      where k = "''0''" and v = "VStr ''first''" and m = "''push''" and args = "[VStr ''tag3'']"]
  from t h1 h2 h3 h4 h5 h6 show ?thesis by blast
qed

text \<open>
  The example of the claim: after \<^verbatim>\<open>wrapped.profile.bio = 'Architect'\<close> the changed fields are
  \<^verbatim>\<open>profile\<close> alone, and \<^verbatim>\<open>profile.bio\<close> is not among them. And where \<^verbatim>\<open>friend\<close> holds the
  wrapped instance of another tracked user, \<^verbatim>\<open>delete wrapped.friend.name\<close> adds no path to
  the changed fields of the user written through: the deletion is recorded for the friend.
\<close>

theorem profile_bio_counterexample:
  "getChangedFields
     (assign (entityProxies john_tracker) john_store john [''profile''] ''bio'' (VStr ''Architect''))
     john_tracker ''User'' (IdNum 1) = [''profile'']
   \<and> ''profile.bio'' \<notin> set (getChangedFields
     (assign (entityProxies john_tracker) john_store john [''profile''] ''bio'' (VStr ''Architect''))
     john_tracker ''User'' (IdNum 1))
   \<and> wrapped_entity (entityProxies friends_tracker)
       (current (entityProxies friends_tracker) friends_store ann [] ''friend'')
   \<and> getChangedFields
       (js_delete (entityProxies friends_tracker) friends_store ann [''friend''] ''name'')
       friends_tracker ''User'' (IdNum 1) = []
   \<and> getChangedFields
       (js_delete (entityProxies friends_tracker) friends_store ann [''friend''] ''name'')
       friends_tracker ''User'' (IdNum 2) = [''name'']"
  by code_simp

end
